theory Spec2Isabelle
  imports Main "HOL-Library.Sublist"
begin

section \<open>Python values and errors\<close>

text \<open>
  The exceptions the modelled code can raise: indexing a list out of range and reading
  an attribute of \<open>None\<close> (\<open>node.parent.id\<close> on a node without a parent).
\<close>

datatype error = IndexError | AttributeError

text \<open>
  Python list indexing \<open>xs[i]\<close>: a negative index counts from the end, an index out
  of range raises \<open>IndexError\<close>.
\<close>

definition py_index :: "'a list \<Rightarrow> int \<Rightarrow> error + 'a" where
  "py_index xs i =
     (if 0 \<le> i \<and> i < int (length xs) then Inr (xs ! nat i)
      else if - int (length xs) \<le> i \<and> i < 0 then Inr (xs ! nat (int (length xs) + i))
      else Inl IndexError)"

section \<open>The decision tree (Nodes.py)\<close>

text \<open>
  A \<open>DecisionTreeNode\<close> object as the visibility code reads it: its \<open>id\<close> (here
  \<open>node_id\<close>), its \<open>parent\<close> and its two optional children \<open>left\<close> and
  \<open>right\<close>. The children are node objects, so a node value carries its whole subtree.
  Of the parent object the code only reads \<open>parent.id\<close> and tests \<open>parent is None\<close>,
  so the back reference is kept as the parent's id.

  \<open>node_holder.nodes\<close> is a list of these objects, indexed by id.
\<close>

datatype DecisionTreeNode =
  DecisionTreeNode (node_id: int) (parent: "int option")
    (left: "DecisionTreeNode option") (right: "DecisionTreeNode option")

text \<open>
  The members of the tuple \<open>(node.left, node.right)\<close> that are not \<open>None\<close>, in the
  order the loops \<open>for child in (node.left, node.right)\<close> visit them.
\<close>

definition children :: "DecisionTreeNode \<Rightarrow> DecisionTreeNode list" where
  "children node =
     (case left node of None \<Rightarrow> [] | Some c \<Rightarrow> [c]) @
     (case right node of None \<Rightarrow> [] | Some c \<Rightarrow> [c])"

definition DISPLAY_DEPTH :: nat where
  "DISPLAY_DEPTH = 3"

definition MAX_ELEMENTS :: nat where
  "MAX_ELEMENTS = 500"

subsection \<open>\<open>Nodes._validate_visiblity_state\<close>\<close>

text \<open>
  The loop \<open>for node_id in tmp_visiblity_state[1:]\<close> with its two accumulators, the
  list \<open>valid\<close> and the set \<open>in_valid\<close>. \<open>break\<close> returns what was accepted so far;
  \<open>self.node_holder.nodes[node_id]\<close> is Python indexing, and \<open>.parent.id\<close> raises
  \<open>AttributeError\<close> when the node has no parent.
\<close>

fun validate_loop ::
  "DecisionTreeNode list \<Rightarrow> int list \<Rightarrow> int list \<Rightarrow> int set \<Rightarrow> error + int list" where
  "validate_loop nodes [] valid in_valid = Inr valid"
| "validate_loop nodes (x # rest) valid in_valid =
     (if x \<ge> int (length nodes) then Inr valid
      else case py_index nodes x of
        Inl e \<Rightarrow> Inl e
      | Inr node \<Rightarrow>
          (case parent node of
            None \<Rightarrow> Inl AttributeError
          | Some parent_id \<Rightarrow>
              if parent_id \<in> in_valid
              then validate_loop nodes rest (valid @ [x]) (insert x in_valid)
              else validate_loop nodes rest valid in_valid))"

definition validate_visiblity_state :: "DecisionTreeNode list \<Rightarrow> int list \<Rightarrow> error + int list" where
  "validate_visiblity_state nodes tmp_visiblity_state =
     validate_loop nodes (drop 1 tmp_visiblity_state) [0] {0}"

subsection \<open>Well-formed node tables and visibility states\<close>

text \<open>
  Modelled from the spec: the generator \<open>decision_tree\<close> that builds
  \<open>node_holder.nodes\<close> is not among the sources. Section 3 of the spec says of a built
  tree that ids are unique and that every node has a greater id than its parent; with the
  way the code reads the table (\<open>nodes[node_id]\<close> is the node with that id, the root
  is \<open>nodes[0]\<close> and has no parent) this is \<open>tree_nodes\<close>: the table is not
  empty, the node at index \<open>i\<close> has id \<open>i\<close>, the root has no parent, every child of
  a listed node is listed, names that node as its parent and has a greater id, and every
  node but the root is a child of a listed node.
\<close>

definition tree_nodes :: "DecisionTreeNode list \<Rightarrow> bool" where
  "tree_nodes nodes \<longleftrightarrow>
     nodes \<noteq> [] \<and>
     map node_id nodes = map int [0..<length nodes] \<and>
     parent (nodes ! 0) = None \<and>
     (\<forall>n\<in>set nodes. \<forall>c\<in>set (children n).
        c \<in> set nodes \<and> parent c = Some (node_id n) \<and> node_id n < node_id c) \<and>
     (\<forall>c\<in>set nodes. node_id c \<noteq> 0 \<longrightarrow> (\<exists>n\<in>set nodes. c \<in> set (children n)))"

text \<open>
  \<open>wf_nodes\<close> adds two conditions that the spec does not state and the code
  presupposes: the ids follow the level order of the tree, that is, the children of a node
  with a smaller id have smaller ids, and a left child has a smaller id than its right
  sibling. \<open>expand_all\<close> stores the ids in the order its breadth-first traversal finds
  them, without sorting, and \<open>expand_children\<close> hands them in that order to a merge of
  sorted arrays; both give an ascending array only on a table in level order. Every theorem
  below that assumes \<open>wf_nodes\<close> is a statement about level-ordered tables only.
\<close>

definition wf_nodes :: "DecisionTreeNode list \<Rightarrow> bool" where
  "wf_nodes nodes \<longleftrightarrow>
     nodes \<noteq> [] \<and>
     map node_id nodes = map int [0..<length nodes] \<and>
     parent (nodes ! 0) = None \<and>
     (\<forall>n\<in>set nodes. \<forall>c\<in>set (children n).
        c \<in> set nodes \<and> parent c = Some (node_id n) \<and> node_id n < node_id c) \<and>
     (\<forall>c\<in>set nodes. node_id c \<noteq> 0 \<longrightarrow> (\<exists>n\<in>set nodes. c \<in> set (children n))) \<and>
     (\<forall>a\<in>set nodes. \<forall>b\<in>set nodes. node_id a < node_id b \<longrightarrow>
        (\<forall>x\<in>set (children a). \<forall>y\<in>set (children b). node_id x < node_id y)) \<and>
     (\<forall>n\<in>set nodes. sorted_wrt (<) (map node_id (children n)))"

text \<open>
  The visibility state of section 3 of the spec: a strictly ascending array of ids of the
  tree that holds the root id 0 and, with every other id, the id of its parent.
\<close>

definition valid_state :: "DecisionTreeNode list \<Rightarrow> int list \<Rightarrow> bool" where
  "valid_state nodes vis \<longleftrightarrow>
     sorted_wrt (<) vis \<and> 0 \<in> set vis \<and>
     (\<forall>x\<in>set vis. 0 \<le> x \<and> x < int (length nodes)) \<and>
     (\<forall>x\<in>set vis. x \<noteq> 0 \<longrightarrow>
        (case parent (nodes ! nat x) of None \<Rightarrow> False | Some p \<Rightarrow> p \<in> set vis))"

subsection \<open>Membership tests\<close>

text \<open>
  \<open>ndarray.searchsorted(v)\<close> on a sorted array: the leftmost index at which \<open>v\<close>
  can be inserted, that is the number of leading elements below \<open>v\<close>.
\<close>

definition searchsorted :: "int list \<Rightarrow> int \<Rightarrow> nat" where
  "searchsorted a v = length (takeWhile (\<lambda>x. x < v) a)"

definition node_id_visiblity :: "int list \<Rightarrow> int \<Rightarrow> bool" where
  "node_id_visiblity visiblity_state i =
     (let k = searchsorted visiblity_state i
      in k < length visiblity_state \<and> visiblity_state ! k = i)"

definition node_visiblity :: "int list \<Rightarrow> DecisionTreeNode \<Rightarrow> bool" where
  "node_visiblity visiblity_state node = node_id_visiblity visiblity_state (node_id node)"

definition node_has_hidden_child :: "int list \<Rightarrow> DecisionTreeNode \<Rightarrow> bool" where
  "node_has_hidden_child visiblity_state node =
     list_ex (\<lambda>child. \<not> node_visiblity visiblity_state child) (children node)"

definition node_is_leaf :: "DecisionTreeNode \<Rightarrow> bool" where
  "node_is_leaf node \<longleftrightarrow> left node = None \<and> right node = None"

subsection \<open>\<open>Nodes.expand_children\<close>\<close>

text \<open>
  \<open>snp.merge(a, b, duplicates=snp.DROP)\<close> of the library sortednp: the merge of two
  sorted arrays in which every value occurs once.
\<close>

fun snp_merge :: "int list \<Rightarrow> int list \<Rightarrow> int list" where
  "snp_merge (x # xs) (y # ys) =
     (if x < y then x # snp_merge xs (y # ys)
      else if y < x then y # snp_merge (x # xs) ys
      else x # snp_merge xs ys)"
| "snp_merge xs [] = xs"
| "snp_merge [] ys = ys"

definition snp_merge_drop :: "int list \<Rightarrow> int list \<Rightarrow> int list" where
  "snp_merge_drop a b = remdups_adj (snp_merge a b)"

text \<open>
  One round of the inner loop \<open>for _ in range(len(Q))\<close>: every node that was in the
  queue at the start of the round is popped; the ids of its children are appended to
  \<open>update\<close> and, while \<open>depth < DISPLAY_DEPTH\<close>, the children to the queue. The
  result is what the round appended to \<open>update\<close> and the queue it leaves.
\<close>

fun expand_level :: "nat \<Rightarrow> DecisionTreeNode list \<Rightarrow> int list \<times> DecisionTreeNode list" where
  "expand_level depth [] = ([], [])"
| "expand_level depth (node # Q) =
     (let (ids, appended) = expand_level depth Q
      in (map node_id (children node) @ ids,
          (if depth < DISPLAY_DEPTH then children node else []) @ appended))"

lemma expand_level_deep: "DISPLAY_DEPTH \<le> depth \<Longrightarrow> snd (expand_level depth Q) = []"
  by (induction Q) (auto split: prod.splits)

text \<open>The outer loop \<open>while Q\<close>, one round per level.\<close>

function expand_loop :: "nat \<Rightarrow> DecisionTreeNode list \<Rightarrow> int list \<Rightarrow> int list" where
  "expand_loop depth Q update =
     (if Q = [] then update
      else expand_loop (depth + 1) (snd (expand_level depth Q))
             (update @ fst (expand_level depth Q)))"
  by pat_completeness auto
termination
proof (relation "measure (\<lambda>(depth, Q, update).
                   if Q = [] then 0 else Suc (DISPLAY_DEPTH - depth))")
  show "wf (measure (\<lambda>(depth, Q, update).
              if Q = [] then 0 else Suc (DISPLAY_DEPTH - depth)))"
    by simp
next
  fix depth :: nat and Q :: "DecisionTreeNode list" and update :: "int list"
  assume "Q \<noteq> []"
  then show "((depth + 1, snd (expand_level depth Q), update @ fst (expand_level depth Q)),
              (depth, Q, update))
             \<in> measure (\<lambda>(depth, Q, update).
                  if Q = [] then 0 else Suc (DISPLAY_DEPTH - depth))"
    using expand_level_deep [of depth Q] by (cases "DISPLAY_DEPTH \<le> depth") auto
qed

definition expand_children :: "int list \<Rightarrow> DecisionTreeNode \<Rightarrow> int list" where
  "expand_children visiblity_state node =
     snp_merge_drop visiblity_state (expand_loop 1 [node] [])"

subsection \<open>\<open>Nodes.hide_children\<close>\<close>

lemma size_children: "c \<in> set (children n) \<Longrightarrow> size c < size n"
  by (cases n) (auto simp: children_def split: option.splits)

text \<open>
  The loop \<open>while Q\<close> of \<open>hide_children\<close>: the children of the popped node that are
  found in the visibility array are appended to the queue, and their positions in the
  array to \<open>deletes\<close>.
\<close>

function hide_loop :: "int list \<Rightarrow> DecisionTreeNode list \<Rightarrow> nat list \<Rightarrow> nat list" where
  "hide_loop visiblity_state [] deletes = deletes"
| "hide_loop visiblity_state (node # Q) deletes =
     (let found = filter (node_visiblity visiblity_state) (children node)
      in hide_loop visiblity_state (Q @ found)
           (deletes @ map (\<lambda>child. searchsorted visiblity_state (node_id child)) found))"
  by pat_completeness auto
termination
proof (relation "measure (\<lambda>(visiblity_state, Q, deletes). sum_list (map size Q))")
  show "wf (measure (\<lambda>(visiblity_state, Q, deletes). sum_list (map size Q)))"
    by simp
next
  fix visiblity_state :: "int list" and node :: DecisionTreeNode
    and Q :: "DecisionTreeNode list" and deletes :: "nat list"
    and found :: "DecisionTreeNode list"
  assume found: "found = filter (node_visiblity visiblity_state) (children node)"
  have "sum_list (map size found) \<le> sum_list (map size (children node))"
    unfolding found by (induction "children node") (auto simp: sum_list_filter_le_nat)
  moreover have "sum_list (map size (children node)) < size node"
    by (cases node) (auto simp: children_def split: option.splits)
  ultimately show "((visiblity_state, Q @ found,
                     deletes @ map (\<lambda>child. searchsorted visiblity_state (node_id child)) found),
                    (visiblity_state, node # Q, deletes))
                   \<in> measure (\<lambda>(visiblity_state, Q, deletes). sum_list (map size Q))"
    by simp
qed

text \<open>
  \<open>np.delete(arr, obj)\<close> with a list of indices: the array without the elements at
  those positions; an index beyond the array raises \<open>IndexError\<close>. The indices here are
  results of \<open>searchsorted\<close> and never negative.
\<close>

fun delete_from :: "nat \<Rightarrow> nat list \<Rightarrow> int list \<Rightarrow> int list" where
  "delete_from k obj [] = []"
| "delete_from k obj (x # xs) =
     (if k \<in> set obj then delete_from (Suc k) obj xs else x # delete_from (Suc k) obj xs)"

definition np_delete :: "int list \<Rightarrow> nat list \<Rightarrow> error + int list" where
  "np_delete arr obj =
     (if list_ex (\<lambda>i. length arr \<le> i) obj then Inl IndexError
      else Inr (delete_from 0 obj arr))"

definition hide_children :: "int list \<Rightarrow> DecisionTreeNode \<Rightarrow> error + int list" where
  "hide_children visiblity_state node =
     np_delete visiblity_state (hide_loop visiblity_state [node] [])"

subsection \<open>\<open>Nodes.on_tap_node\<close>\<close>

definition on_tap_node :: "DecisionTreeNode list \<Rightarrow> int list \<Rightarrow> int \<Rightarrow> error + int list" where
  "on_tap_node nodes visiblity_state i =
     (if i \<ge> int (length nodes) \<or> \<not> node_id_visiblity visiblity_state i
      then Inr visiblity_state
      else case py_index nodes i of
        Inl e \<Rightarrow> Inl e
      | Inr node \<Rightarrow>
          if node_is_leaf node then Inr visiblity_state
          else if node_has_hidden_child visiblity_state node
          then Inr (expand_children visiblity_state node)
          else hide_children visiblity_state node)"

subsection \<open>\<open>Nodes.expand_all\<close>\<close>

text \<open>
  The inner loop over \<open>(node.left, node.right)\<close>: a child that is not \<open>None\<close> is
  counted and queued while \<open>tot < MAX_ELEMENTS\<close>.
\<close>

fun expand_all_for ::
  "nat \<Rightarrow> DecisionTreeNode list \<Rightarrow> DecisionTreeNode option list
   \<Rightarrow> nat \<times> DecisionTreeNode list" where
  "expand_all_for tot Q [] = (tot, Q)"
| "expand_all_for tot Q (None # rest) = expand_all_for tot Q rest"
| "expand_all_for tot Q (Some child # rest) =
     (if tot < MAX_ELEMENTS then expand_all_for (tot + 1) (Q @ [child]) rest
      else expand_all_for tot Q rest)"

lemma expand_all_for_sizes:
  "sum_list (map size (snd (expand_all_for tot Q cs)))
   \<le> sum_list (map size Q) + sum_list (map (size_option size) cs)"
  by (induction tot Q cs rule: expand_all_for.induct) auto

text \<open>The loop \<open>while Q and tot < MAX_ELEMENTS\<close>; it returns \<open>elem\<close> and \<open>tot\<close>.\<close>

function expand_all_loop ::
  "DecisionTreeNode list \<Rightarrow> nat \<Rightarrow> int list \<Rightarrow> int list \<times> nat" where
  "expand_all_loop [] tot elem = (elem, tot)"
| "expand_all_loop (node # Q) tot elem =
     (if tot < MAX_ELEMENTS
      then expand_all_loop (snd (expand_all_for tot Q [left node, right node]))
             (fst (expand_all_for tot Q [left node, right node])) (elem @ [node_id node])
      else (elem, tot))"
  by pat_completeness auto
termination
proof (relation "measure (\<lambda>(Q, tot, elem). sum_list (map size Q))")
  show "wf (measure (\<lambda>(Q, tot, elem). sum_list (map size Q)))"
    by simp
next
  fix node :: DecisionTreeNode and Q :: "DecisionTreeNode list" and tot :: nat
    and elem :: "int list"
  have "sum_list (map size (snd (expand_all_for tot Q [left node, right node])))
        \<le> sum_list (map size Q) + (size_option size (left node) + size_option size (right node))"
    using expand_all_for_sizes [of tot Q "[left node, right node]"] by simp
  moreover have "size_option size (left node) + size_option size (right node) < size node"
    by (cases node) simp
  ultimately show "((snd (expand_all_for tot Q [left node, right node]),
                     fst (expand_all_for tot Q [left node, right node]), elem @ [node_id node]),
                    (node # Q, tot, elem))
                   \<in> measure (\<lambda>(Q, tot, elem). sum_list (map size Q))"
    by simp
qed

text \<open>
  \<open>expand_all\<close> replaces the visibility array by \<open>elem\<close> and returns
  \<open>tot < MAX_ELEMENTS\<close>; the model returns both.
\<close>

definition expand_all :: "DecisionTreeNode list \<Rightarrow> error + (int list \<times> bool)" where
  "expand_all nodes =
     (case py_index nodes 0 of
        Inl e \<Rightarrow> Inl e
      | Inr root \<Rightarrow>
          (let (elem, tot) = expand_all_loop [root] 1 [] in Inr (elem, tot < MAX_ELEMENTS)))"

subsection \<open>\<open>Nodes.__init__\<close>\<close>

text \<open>
  The constructor, given the decoded token (\<open>None\<close> when no token is supplied; the
  compression and the base-85 coding of the token are not modelled).
\<close>

definition Nodes_init ::
  "DecisionTreeNode list \<Rightarrow> int list option \<Rightarrow> bool \<Rightarrow> error + int list" where
  "Nodes_init nodes visiblity_state validate =
     (case visiblity_state of
        Some decoded \<Rightarrow>
          if validate then validate_visiblity_state nodes decoded else Inr decoded
      | None \<Rightarrow>
          (case py_index nodes 0 of
             Inl e \<Rightarrow> Inl e
           | Inr root \<Rightarrow> Inr (expand_children [0] root)))"

section \<open>An example tree\<close>

text \<open>
  Five nodes: the root 0 with children 1 and 2, node 3 the left child of 1 and node 4
  the left child of 2.
\<close>

definition example_node3 :: DecisionTreeNode where
  "example_node3 = DecisionTreeNode 3 (Some 1) None None"

definition example_node4 :: DecisionTreeNode where
  "example_node4 = DecisionTreeNode 4 (Some 2) None None"

definition example_node1 :: DecisionTreeNode where
  "example_node1 = DecisionTreeNode 1 (Some 0) (Some example_node3) None"

definition example_node2 :: DecisionTreeNode where
  "example_node2 = DecisionTreeNode 2 (Some 0) (Some example_node4) None"

definition example_root :: DecisionTreeNode where
  "example_root = DecisionTreeNode 0 None (Some example_node1) (Some example_node2)"

definition example_nodes :: "DecisionTreeNode list" where
  "example_nodes = [example_root, example_node1, example_node2, example_node3, example_node4]"

lemmas example_defs =
  example_nodes_def example_root_def example_node1_def example_node2_def
  example_node3_def example_node4_def

text \<open>
  A tree that satisfies section 3 of the spec but is not in level order: the root 0 with
  children 1 and 2, node 4 the left child of 1 and node 3 the left child of 2.
\<close>

definition unordered_node3 :: DecisionTreeNode where
  "unordered_node3 = DecisionTreeNode 3 (Some 2) None None"

definition unordered_node4 :: DecisionTreeNode where
  "unordered_node4 = DecisionTreeNode 4 (Some 1) None None"

definition unordered_node1 :: DecisionTreeNode where
  "unordered_node1 = DecisionTreeNode 1 (Some 0) (Some unordered_node4) None"

definition unordered_node2 :: DecisionTreeNode where
  "unordered_node2 = DecisionTreeNode 2 (Some 0) (Some unordered_node3) None"

definition unordered_root :: DecisionTreeNode where
  "unordered_root = DecisionTreeNode 0 None (Some unordered_node1) (Some unordered_node2)"

definition unordered_nodes :: "DecisionTreeNode list" where
  "unordered_nodes =
     [unordered_root, unordered_node1, unordered_node2, unordered_node3, unordered_node4]"

lemmas unordered_defs =
  unordered_nodes_def unordered_root_def unordered_node1_def unordered_node2_def
  unordered_node3_def unordered_node4_def

section \<open>Descendants, levels and the operations in the words of the spec\<close>

text \<open>
  The descendants of a node down to a number of levels: its children, their children,
  and so on.
\<close>

fun descendants_upto :: "nat \<Rightarrow> DecisionTreeNode \<Rightarrow> DecisionTreeNode list" where
  "descendants_upto 0 node = []"
| "descendants_upto (Suc d) node =
     concat (map (\<lambda>child. child # descendants_upto d child) (children node))"

text \<open>
  All descendants of a node.
\<close>

fun descendants :: "DecisionTreeNode \<Rightarrow> DecisionTreeNode list" where
  "descendants (DecisionTreeNode i p l r) =
     (case l of None \<Rightarrow> [] | Some child \<Rightarrow> child # descendants child) @
     (case r of None \<Rightarrow> [] | Some child \<Rightarrow> child # descendants child)"

text \<open>
  The children of the nodes of a queue, in order: the next level of a breadth-first
  traversal.
\<close>

definition next_level :: "DecisionTreeNode list \<Rightarrow> DecisionTreeNode list" where
  "next_level Q = concat (map children Q)"

text \<open>
  The levels below a queue of nodes, one after the other.
\<close>

fun bfs_levels :: "nat \<Rightarrow> DecisionTreeNode list \<Rightarrow> DecisionTreeNode list" where
  "bfs_levels 0 Q = []"
| "bfs_levels (Suc k) Q = next_level Q @ bfs_levels k (next_level Q)"

text \<open>
  The descendants that \<open>hide_children\<close> reaches: it follows a child only when the
  child is found in the visibility array.
\<close>

fun visible_descendants :: "int list \<Rightarrow> DecisionTreeNode \<Rightarrow> DecisionTreeNode list" where
  "visible_descendants vis (DecisionTreeNode i p l r) =
     (case l of None \<Rightarrow> []
      | Some child \<Rightarrow>
          if node_visiblity vis child then child # visible_descendants vis child else []) @
     (case r of None \<Rightarrow> []
      | Some child \<Rightarrow>
          if node_visiblity vis child then child # visible_descendants vis child else [])"

text \<open>
  The state of the loop of \<open>expand_all\<close> on a well-formed table after \<open>k\<close> nodes were
  popped and \<open>tot\<close> were counted: the nodes found so far are those with an id below
  \<open>tot\<close>, and they are the root and the children of the popped nodes.
\<close>

definition bfs_inv :: "DecisionTreeNode list \<Rightarrow> nat \<Rightarrow> nat \<Rightarrow> bool" where
  "bfs_inv nodes k tot \<longleftrightarrow>
     k \<le> tot \<and> 1 \<le> tot \<and> tot \<le> length nodes \<and>
     (\<forall>j. 0 < j \<and> j < tot \<longrightarrow> (\<exists>p. parent (nodes ! j) = Some p \<and> p < int k)) \<and>
     (\<forall>i<k. \<forall>c\<in>set (children (nodes ! i)). node_id c < int tot)"

text \<open>
  Section 4.2 of the spec, \<open>expandSubtree(nodeId, depthLimit)\<close>: the ids of the
  descendants down to \<open>depthLimit\<close> levels are merged into the visibility array as a
  sorted union without duplicates.
\<close>

definition expandSubtree :: "int list \<Rightarrow> DecisionTreeNode \<Rightarrow> nat \<Rightarrow> int list" where
  "expandSubtree vis node depthLimit =
     sorted_list_of_set (set vis \<union> node_id ` set (descendants_upto depthLimit node))"

text \<open>
  Section 4.2 of the spec, \<open>collapseSubtree(nodeId)\<close>: every id of a descendant is removed
  from the array; the node itself stays.
\<close>

definition collapseSubtree :: "int list \<Rightarrow> DecisionTreeNode \<Rightarrow> int list" where
  "collapseSubtree vis node = filter (\<lambda>x. x \<notin> node_id ` set (descendants node)) vis"

text \<open>
  Section 4.2 of the spec, \<open>toggle(nodeId)\<close>: nothing happens for an id that is out of
  range or not visible, and nothing for a leaf; a node with a hidden child is expanded
  down to \<open>DISPLAY_DEPTH\<close> levels, a node whose children are all visible is collapsed.
\<close>

definition toggle :: "DecisionTreeNode list \<Rightarrow> int list \<Rightarrow> int \<Rightarrow> int list" where
  "toggle nodes vis i =
     (if i < 0 \<or> int (length nodes) \<le> i \<or> i \<notin> set vis then vis
      else if children (nodes ! nat i) = [] then vis
      else if \<exists>child\<in>set (children (nodes ! nat i)). node_id child \<notin> set vis
      then expandSubtree vis (nodes ! nat i) DISPLAY_DEPTH
      else collapseSubtree vis (nodes ! nat i))"

section \<open>Auxiliary facts\<close>

lemma wf_nth_id: "wf_nodes nodes \<Longrightarrow> i < length nodes \<Longrightarrow> node_id (nodes ! i) = int i"
proof -
  assume w: "wf_nodes nodes" and i: "i < length nodes"
  from w have "map node_id nodes = map int [0..<length nodes]"
    unfolding wf_nodes_def by (elim conjE)
  then have "map node_id nodes ! i = map int [0..<length nodes] ! i"
    by (rule arg_cong)
  with i show ?thesis by simp
qed

lemma wf_member:
  assumes "wf_nodes nodes" "n \<in> set nodes"
  shows "0 \<le> node_id n \<and> node_id n < int (length nodes) \<and> nodes ! nat (node_id n) = n"
proof -
  from assms(2) obtain i where i: "i < length nodes" "nodes ! i = n"
    by (auto simp: in_set_conv_nth)
  with wf_nth_id [OF assms(1), of i] show ?thesis by auto
qed

lemma wf_nth_member: "0 \<le> x \<Longrightarrow> x < int (length nodes) \<Longrightarrow> nodes ! nat x \<in> set nodes"
  by (rule nth_mem) linarith

lemma wf_child:
  assumes "wf_nodes nodes" "n \<in> set nodes" "c \<in> set (children n)"
  shows "c \<in> set nodes" "parent c = Some (node_id n)" "node_id n < node_id c"
proof -
  from assms(1) have "\<forall>n\<in>set nodes. \<forall>c\<in>set (children n).
        c \<in> set nodes \<and> parent c = Some (node_id n) \<and> node_id n < node_id c"
    unfolding wf_nodes_def by (elim conjE)
  with assms(2,3) show "c \<in> set nodes" "parent c = Some (node_id n)" "node_id n < node_id c"
    by blast+
qed

lemma wf_root:
  assumes w: "wf_nodes nodes"
  shows "nodes \<noteq> []" "parent (nodes ! 0) = None" "node_id (nodes ! 0) = 0" "nodes ! 0 \<in> set nodes"
proof -
  from w show ne: "nodes \<noteq> []" unfolding wf_nodes_def by (elim conjE)
  from w show "parent (nodes ! 0) = None" unfolding wf_nodes_def by (elim conjE)
  from ne have "0 < length nodes" by simp
  with wf_nth_id [OF w, of 0] show "node_id (nodes ! 0) = 0" by simp
  from ne show "nodes ! 0 \<in> set nodes" by simp
qed

lemma wf_has_parent:
  assumes "wf_nodes nodes" "c \<in> set nodes" "node_id c \<noteq> 0"
  shows "\<exists>n\<in>set nodes. c \<in> set (children n)"
proof -
  from assms(1) have "\<forall>c\<in>set nodes. node_id c \<noteq> 0 \<longrightarrow> (\<exists>n\<in>set nodes. c \<in> set (children n))"
    unfolding wf_nodes_def by (elim conjE)
  with assms(2,3) show ?thesis by blast
qed

lemma wf_level_order:
  assumes "wf_nodes nodes" "a \<in> set nodes" "b \<in> set nodes" "node_id a < node_id b"
    "x \<in> set (children a)" "y \<in> set (children b)"
  shows "node_id x < node_id y"
proof -
  from assms(1) have "\<forall>a\<in>set nodes. \<forall>b\<in>set nodes. node_id a < node_id b \<longrightarrow>
        (\<forall>x\<in>set (children a). \<forall>y\<in>set (children b). node_id x < node_id y)"
    unfolding wf_nodes_def by (elim conjE)
  with assms(2-) show ?thesis by blast
qed

lemma wf_siblings:
  assumes "wf_nodes nodes" "n \<in> set nodes"
  shows "sorted_wrt (<) (map node_id (children n))"
proof -
  from assms(1) have "\<forall>n\<in>set nodes. sorted_wrt (<) (map node_id (children n))"
    unfolding wf_nodes_def by (elim conjE)
  with assms(2) show ?thesis by blast
qed


lemma takeWhile_less_strict_sorted:
  "sorted_wrt (<) (vis::int list) \<Longrightarrow> j < length vis \<Longrightarrow> takeWhile (\<lambda>x. x < vis ! j) vis = take j vis"
proof (induction vis arbitrary: j)
  case Nil then show ?case by simp
next
  case (Cons a vis)
  show ?case
  proof (cases j)
    case 0 then show ?thesis by simp
  next
    case (Suc k)
    with Cons.prems have "a < vis ! k" by auto
    with Cons Suc show ?thesis by auto
  qed
qed

lemma searchsorted_nth:
  "sorted_wrt (<) vis \<Longrightarrow> j < length vis \<Longrightarrow> searchsorted vis (vis ! j) = j"
  by (simp add: searchsorted_def takeWhile_less_strict_sorted)

lemma node_id_visiblity_iff:
  assumes "sorted_wrt (<) vis"
  shows "node_id_visiblity vis x \<longleftrightarrow> x \<in> set vis"
proof
  assume "node_id_visiblity vis x"
  then have "searchsorted vis x < length vis" "vis ! searchsorted vis x = x"
    by (simp_all add: node_id_visiblity_def Let_def)
  then show "x \<in> set vis" by (metis nth_mem)
next
  assume "x \<in> set vis"
  then obtain j where "j < length vis" "vis ! j = x" by (auto simp: in_set_conv_nth)
  with searchsorted_nth [OF assms, of j] show "node_id_visiblity vis x"
    by (auto simp: node_id_visiblity_def Let_def)
qed

lemma delete_from_filter:
  "(\<And>j. j < length xs \<Longrightarrow> (k + j \<in> set obj) = (xs ! j \<in> D))
   \<Longrightarrow> delete_from k obj xs = filter (\<lambda>x. x \<notin> D) xs"
proof (induction xs arbitrary: k)
  case Nil then show ?case by simp
next
  case (Cons x xs)
  have "(k \<in> set obj) = (x \<in> D)" using Cons.prems [of 0] by simp
  moreover have "delete_from (Suc k) obj xs = filter (\<lambda>x. x \<notin> D) xs"
  proof (rule Cons.IH)
    fix j assume "j < length xs"
    then show "(Suc k + j \<in> set obj) = (xs ! j \<in> D)"
      using Cons.prems [of "Suc j"] by simp
  qed
  ultimately show ?case by simp
qed

lemma np_delete_positions:
  assumes s: "sorted_wrt (<) vis" and D: "D \<subseteq> set vis" and obj: "set obj = searchsorted vis ` D"
  shows "np_delete vis obj = Inr (filter (\<lambda>x. x \<notin> D) vis)"
proof -
  have in_range: "\<And>i. i \<in> set obj \<Longrightarrow> i < length vis"
  proof -
    fix i assume "i \<in> set obj"
    then obtain d where d: "d \<in> D" "i = searchsorted vis d" using obj by auto
    with D have "d \<in> set vis" by auto
    then obtain j where "j < length vis" "vis ! j = d" by (auto simp: in_set_conv_nth)
    with searchsorted_nth [OF s, of j] d show "i < length vis" by simp
  qed
  have "\<And>j. j < length vis \<Longrightarrow> (0 + j \<in> set obj) = (vis ! j \<in> D)"
  proof -
    fix j assume j: "j < length vis"
    show "(0 + j \<in> set obj) = (vis ! j \<in> D)"
    proof
      assume "0 + j \<in> set obj"
      then obtain d where d: "d \<in> D" "j = searchsorted vis d" using obj by auto
      with D have "d \<in> set vis" by auto
      then obtain k where k: "k < length vis" "vis ! k = d" by (auto simp: in_set_conv_nth)
      with searchsorted_nth [OF s, of k] d have "k = j" by simp
      with k d show "vis ! j \<in> D" by simp
    next
      assume "vis ! j \<in> D"
      then have "searchsorted vis (vis ! j) \<in> set obj" using obj by auto
      with searchsorted_nth [OF s j] show "0 + j \<in> set obj" by simp
    qed
  qed
  then have "delete_from 0 obj vis = filter (\<lambda>x. x \<notin> D) vis"
    by (rule delete_from_filter)
  moreover have "\<not> list_ex (\<lambda>i. length vis \<le> i) obj"
    using in_range by (fastforce simp: list_ex_iff not_le)
  ultimately show ?thesis by (simp add: np_delete_def)
qed

lemma set_snp_merge: "set (snp_merge a b) = set a \<union> set b"
  by (induction a b rule: snp_merge.induct) auto

lemma sorted_snp_merge:
  "sorted_wrt (<) a \<Longrightarrow> sorted_wrt (<) b \<Longrightarrow> sorted_wrt (<) (snp_merge a b)"
  by (induction a b rule: snp_merge.induct) (auto simp: set_snp_merge)

lemma snp_merge_drop_sorted:
  assumes "sorted_wrt (<) a" "sorted_wrt (<) b"
  shows "sorted_wrt (<) (snp_merge_drop a b)" "set (snp_merge_drop a b) = set a \<union> set b"
proof -
  have "sorted_wrt (<) (snp_merge a b)" using assms by (rule sorted_snp_merge)
  then have "distinct (snp_merge a b)" by (simp add: strict_sorted_iff)
  then have "snp_merge_drop a b = snp_merge a b"
    by (simp add: snp_merge_drop_def remdups_adj_distinct)
  then show "sorted_wrt (<) (snp_merge_drop a b)" "set (snp_merge_drop a b) = set a \<union> set b"
    using \<open>sorted_wrt (<) (snp_merge a b)\<close> by (simp_all add: set_snp_merge)
qed

declare expand_loop.simps [simp del]

lemma descendants_children:
  "descendants node = concat (map (\<lambda>child. child # descendants child) (children node))"
  by (cases node) (simp add: children_def split: option.splits)

lemma expand_level_eq:
  "expand_level depth Q =
     (map node_id (next_level Q), if depth < DISPLAY_DEPTH then next_level Q else [])"
  by (induction Q) (simp_all add: next_level_def)

lemma bfs_levels_Nil: "bfs_levels k [] = []"
  by (induction k) (simp_all add: next_level_def)

lemma expand_loop_eq:
  "depth \<le> DISPLAY_DEPTH \<Longrightarrow>
   expand_loop depth Q update = update @ map node_id (bfs_levels (Suc DISPLAY_DEPTH - depth) Q)"
proof (induction depth Q update rule: expand_loop.induct)
  case (1 depth Q update)
  show ?case
  proof (cases "Q = []")
    case True
    then show ?thesis by (simp add: bfs_levels_Nil expand_loop.simps)
  next
    case False
    show ?thesis
    proof (cases "depth < DISPLAY_DEPTH")
      case True
      then have k: "Suc DISPLAY_DEPTH - depth = Suc (Suc DISPLAY_DEPTH - (depth + 1))" by simp
      have "expand_loop depth Q update =
            expand_loop (depth + 1) (next_level Q) (update @ map node_id (next_level Q))"
        using False True by (subst expand_loop.simps) (simp add: expand_level_eq)
      also have "\<dots> = (update @ map node_id (next_level Q)) @
                     map node_id (bfs_levels (Suc DISPLAY_DEPTH - (depth + 1)) (next_level Q))"
        using "1.IH" [OF False] True by (simp add: expand_level_eq)
      finally show ?thesis by (simp add: k)
    next
      case False2: False
      with "1.prems" have d: "depth = DISPLAY_DEPTH" by simp
      have "expand_loop depth Q update =
            expand_loop (depth + 1) [] (update @ map node_id (next_level Q))"
        using False d by (subst expand_loop.simps) (simp add: expand_level_eq)
      also have "\<dots> = update @ map node_id (next_level Q)"
        by (subst expand_loop.simps) simp
      finally show ?thesis using d by (simp add: bfs_levels_Nil)
    qed
  qed
qed

lemma set_bfs_levels:
  "set (bfs_levels k Q) = (\<Union>n\<in>set Q. set (descendants_upto k n))"
proof (induction k arbitrary: Q)
  case 0 then show ?case by simp
next
  case (Suc k)
  show ?case by (auto simp: Suc next_level_def)
qed

lemma node_induct [case_names node]:
  assumes "\<And>n. (\<And>c. c \<in> set (children n) \<Longrightarrow> P c) \<Longrightarrow> P n"
  shows "P n"
proof (induction n rule: measure_induct_rule [where f = size])
  case (less n)
  show ?case by (rule assms) (simp add: less size_children)
qed



lemma descendants_wf:
  assumes w: "wf_nodes nodes"
  shows "n \<in> set nodes \<Longrightarrow> d \<in> set (descendants n) \<Longrightarrow> d \<in> set nodes \<and> node_id n < node_id d"
proof (induction n rule: node_induct)
  case (node n)
  from node.prems(2) obtain c where c: "c \<in> set (children n)" "d = c \<or> d \<in> set (descendants c)"
    by (subst (asm) descendants_children) auto
  have cn: "c \<in> set nodes" "node_id n < node_id c"
    using wf_child [OF w node.prems(1) c(1)] by simp_all
  from c(2) show ?case
  proof
    assume "d = c" with cn show ?thesis by simp
  next
    assume "d \<in> set (descendants c)"
    with node.IH [OF c(1) cn(1)] cn(2) show ?thesis by auto
  qed
qed

lemma descendants_upto_subset: "set (descendants_upto k n) \<subseteq> set (descendants n)"
proof (induction k arbitrary: n)
  case 0 then show ?case by simp
next
  case (Suc k)
  show ?case
  proof
    fix d assume "d \<in> set (descendants_upto (Suc k) n)"
    then obtain c where "c \<in> set (children n)" "d = c \<or> d \<in> set (descendants_upto k c)" by auto
    with Suc [of c] show "d \<in> set (descendants n)"
      by (subst descendants_children) auto
  qed
qed

lemma descendants_upto_parent:
  "d \<in> set (descendants_upto k n) \<Longrightarrow>
   \<exists>m. d \<in> set (children m) \<and> (m = n \<or> m \<in> set (descendants_upto k n))"
proof (induction k arbitrary: n)
  case 0 then show ?case by simp
next
  case (Suc k)
  from Suc.prems obtain c where c: "c \<in> set (children n)" "d = c \<or> d \<in> set (descendants_upto k c)"
    by auto
  from c(2) show ?case
  proof
    assume "d = c" with c(1) show ?thesis by blast
  next
    assume "d \<in> set (descendants_upto k c)"
    from Suc.IH [OF this] obtain m where m: "d \<in> set (children m)" "m = c \<or> m \<in> set (descendants_upto k c)"
      by blast
    have "descendants_upto k c = [] \<or> k \<noteq> 0" by (cases k) auto
    have "m \<in> set (descendants_upto (Suc k) n)"
    proof -
      from m(2) have "m \<in> set (c # descendants_upto k c)" by auto
      with c(1) show ?thesis by auto
    qed
    with m(1) show ?thesis by blast
  qed
qed

lemma next_level_wf:
  assumes w: "wf_nodes nodes" and Q: "set Q \<subseteq> set nodes"
  shows "set (next_level Q) \<subseteq> set nodes"
  using Q wf_child(1) [OF w] by (auto simp: next_level_def)

lemma sorted_next_level:
  assumes w: "wf_nodes nodes"
  shows "set Q \<subseteq> set nodes \<Longrightarrow> sorted_wrt (<) (map node_id Q)
         \<Longrightarrow> sorted_wrt (<) (map node_id (next_level Q))"
proof (induction Q)
  case Nil then show ?case by (simp add: next_level_def)
next
  case (Cons n Q)
  have n: "n \<in> set nodes" and Qs: "set Q \<subseteq> set nodes" using Cons.prems(1) by auto
  have 1: "sorted_wrt (<) (map node_id (children n))" using wf_siblings [OF w n] .
  have 2: "sorted_wrt (<) (map node_id (next_level Q))" using Cons by simp
  have 3: "\<forall>x\<in>set (children n). \<forall>y\<in>set (next_level Q). node_id x < node_id y"
  proof (intro ballI)
    fix x y assume x: "x \<in> set (children n)" and y: "y \<in> set (next_level Q)"
    from y obtain m where m: "m \<in> set Q" "y \<in> set (children m)" by (auto simp: next_level_def)
    with Cons.prems(2) have "node_id n < node_id m" by auto
    with wf_level_order [OF w n _ _ x m(2)] m(1) Qs show "node_id x < node_id y" by blast
  qed
  have "next_level (n # Q) = children n @ next_level Q" by (simp add: next_level_def)
  with 1 2 3 show ?case by (simp add: sorted_wrt_append)
qed

lemma sorted_bfs_levels:
  assumes w: "wf_nodes nodes"
  shows "set Q \<subseteq> set nodes \<Longrightarrow> sorted_wrt (<) (map node_id Q)
         \<Longrightarrow> (\<forall>a\<in>set Q. \<forall>b\<in>set (next_level Q). node_id a < node_id b)
         \<Longrightarrow> sorted_wrt (<) (map node_id (bfs_levels k Q))
             \<and> (\<forall>a\<in>set Q. \<forall>y\<in>set (bfs_levels k Q). node_id a < node_id y)"
proof (induction k arbitrary: Q)
  case 0 then show ?case by simp
next
  case (Suc k)
  let ?N = "next_level Q"
  have Ns: "set ?N \<subseteq> set nodes" using next_level_wf [OF w Suc.prems(1)] .
  have Nsorted: "sorted_wrt (<) (map node_id ?N)"
    using sorted_next_level [OF w Suc.prems(1,2)] .
  have NI: "\<forall>a\<in>set ?N. \<forall>b\<in>set (next_level ?N). node_id a < node_id b"
  proof (intro ballI)
    fix a b assume a: "a \<in> set ?N" and b: "b \<in> set (next_level ?N)"
    from a obtain pa where pa: "pa \<in> set Q" "a \<in> set (children pa)" by (auto simp: next_level_def)
    from b obtain pb where pb: "pb \<in> set ?N" "b \<in> set (children pb)" by (auto simp: next_level_def)
    from Suc.prems(3) pa(1) pb(1) have "node_id pa < node_id pb" by blast
    moreover have "pa \<in> set nodes" "pb \<in> set nodes" using pa(1) pb(1) Suc.prems(1) Ns by auto
    ultimately show "node_id a < node_id b"
      using wf_level_order [OF w _ _ _ pa(2) pb(2)] by blast
  qed
  from Suc.IH [OF Ns Nsorted NI]
  have IH1: "sorted_wrt (<) (map node_id (bfs_levels k ?N))"
    and IH2: "\<forall>a\<in>set ?N. \<forall>y\<in>set (bfs_levels k ?N). node_id a < node_id y" by simp_all
  have sorted: "sorted_wrt (<) (map node_id (bfs_levels (Suc k) Q))"
    using Nsorted IH1 IH2 by (simp add: sorted_wrt_append)
  have "\<forall>a\<in>set Q. \<forall>y\<in>set (bfs_levels (Suc k) Q). node_id a < node_id y"
  proof (intro ballI)
    fix a y assume a: "a \<in> set Q" and y: "y \<in> set (bfs_levels (Suc k) Q)"
    from y have "y \<in> set ?N \<or> y \<in> set (bfs_levels k ?N)" by simp
    then show "node_id a < node_id y"
    proof
      assume "y \<in> set ?N" with Suc.prems(3) a show ?thesis by blast
    next
      assume yr: "y \<in> set (bfs_levels k ?N)"
      then have "?N \<noteq> []" using bfs_levels_Nil by auto
      then obtain b where b: "b \<in> set ?N" by (cases ?N) auto
      with IH2 yr have "node_id b < node_id y" by blast
      moreover from Suc.prems(3) a b have "node_id a < node_id b" by blast
      ultimately show ?thesis by simp
    qed
  qed
  with sorted show ?case by blast
qed

lemma expand_loop_spec:
  assumes w: "wf_nodes nodes" and n: "node \<in> set nodes"
  shows "sorted_wrt (<) (expand_loop 1 [node] [])"
    and "set (expand_loop 1 [node] []) = node_id ` set (descendants_upto DISPLAY_DEPTH node)"
proof -
  have eq: "expand_loop 1 [node] [] = map node_id (bfs_levels DISPLAY_DEPTH [node])"
    using expand_loop_eq [of 1 "[node]" "[]"] by (simp add: DISPLAY_DEPTH_def)
  have "\<forall>a\<in>set [node]. \<forall>b\<in>set (next_level [node]). node_id a < node_id b"
    using wf_child(3) [OF w n] by (simp add: next_level_def)
  with sorted_bfs_levels [OF w, of "[node]" DISPLAY_DEPTH] n
  show "sorted_wrt (<) (expand_loop 1 [node] [])" unfolding eq by simp
  show "set (expand_loop 1 [node] []) = node_id ` set (descendants_upto DISPLAY_DEPTH node)"
    unfolding eq by (simp add: set_bfs_levels)
qed

lemma expand_children_spec:
  assumes w: "wf_nodes nodes" and n: "node \<in> set nodes" and s: "sorted_wrt (<) vis"
  shows "sorted_wrt (<) (expand_children vis node)"
    and "set (expand_children vis node) =
         set vis \<union> node_id ` set (descendants_upto DISPLAY_DEPTH node)"
  using snp_merge_drop_sorted [OF s expand_loop_spec(1) [OF w n]] expand_loop_spec(2) [OF w n]
  by (simp_all add: expand_children_def)

lemma visible_descendants_children:
  "visible_descendants vis node =
   concat (map (\<lambda>child. child # visible_descendants vis child)
             (filter (node_visiblity vis) (children node)))"
  by (cases node) (simp add: children_def split: option.splits)

lemma set_hide_loop:
  "set (hide_loop vis Q deletes) =
   set deletes \<union> (\<lambda>d. searchsorted vis (node_id d)) ` (\<Union>n\<in>set Q. set (visible_descendants vis n))"
proof (induction vis Q deletes rule: hide_loop.induct)
  case (1 vis deletes)
  then show ?case by simp
next
  case (2 vis node Q deletes)
  let ?found = "filter (node_visiblity vis) (children node)"
  have "set (visible_descendants vis node) =
        set ?found \<union> (\<Union>c\<in>set ?found. set (visible_descendants vis c))"
    by (subst visible_descendants_children) auto
  then show ?case
    using "2.IH" [of ?found] by (simp add: Let_def image_Un image_UN Un_ac)
qed

declare hide_loop.simps [simp del]

lemma visible_descendants_subset:
  "set (visible_descendants vis n) \<subseteq> set (descendants n)"
proof (induction n rule: node_induct)
  case (node n)
  show ?case
  proof
    fix d assume "d \<in> set (visible_descendants vis n)"
    then obtain c where "c \<in> set (children n)" "d = c \<or> d \<in> set (visible_descendants vis c)"
      by (subst (asm) visible_descendants_children) auto
    with node.IH show "d \<in> set (descendants n)"
      by (subst descendants_children) auto
  qed
qed

lemma visible_descendants_visible:
  "d \<in> set (visible_descendants vis n) \<Longrightarrow> node_visiblity vis d"
proof (induction n rule: node_induct)
  case (node n)
  from node.prems obtain c where "c \<in> set (children n)" "node_visiblity vis c"
    "d = c \<or> d \<in> set (visible_descendants vis c)"
    by (subst (asm) visible_descendants_children) auto
  with node.IH show ?case by blast
qed

lemma valid_stateD:
  assumes "valid_state nodes vis"
  shows "sorted_wrt (<) vis" "0 \<in> set vis"
    "\<And>x. x \<in> set vis \<Longrightarrow> 0 \<le> x \<and> x < int (length nodes)"
    "\<And>x. x \<in> set vis \<Longrightarrow> x \<noteq> 0 \<Longrightarrow> \<exists>p. parent (nodes ! nat x) = Some p \<and> p \<in> set vis"
  using assms by (auto simp: valid_state_def split: option.splits)

lemma valid_stateI:
  assumes "sorted_wrt (<) vis" "0 \<in> set vis"
    "\<And>x. x \<in> set vis \<Longrightarrow> 0 \<le> x \<and> x < int (length nodes)"
    "\<And>x. x \<in> set vis \<Longrightarrow> x \<noteq> 0 \<Longrightarrow> \<exists>p. parent (nodes ! nat x) = Some p \<and> p \<in> set vis"
  shows "valid_state nodes vis"
  unfolding valid_state_def using assms by (fastforce split: option.splits)

text \<open>In a valid state, a visible child has a visible parent.\<close>

lemma visible_child_parent:
  assumes w: "wf_nodes nodes" and v: "valid_state nodes vis"
    and n: "n \<in> set nodes" and c: "c \<in> set (children n)" and cv: "node_id c \<in> set vis"
  shows "node_id n \<in> set vis"
proof -
  have cn: "c \<in> set nodes" "parent c = Some (node_id n)" "node_id n < node_id c"
    using wf_child [OF w n c] by simp_all
  have "0 \<le> node_id n" using wf_member [OF w n] by simp
  with cn(3) have "node_id c \<noteq> 0" by simp
  from valid_stateD(4) [OF v cv this] wf_member [OF w cn(1)] cn(2)
  show ?thesis by simp
qed

lemma visible_descendants_complete:
  assumes w: "wf_nodes nodes" and v: "valid_state nodes vis"
  shows "n \<in> set nodes \<Longrightarrow> d \<in> set (descendants n) \<Longrightarrow> node_id d \<in> set vis
         \<Longrightarrow> d \<in> set (visible_descendants vis n)"
proof (induction n rule: node_induct)
  case (node n)
  have s: "sorted_wrt (<) vis" using valid_stateD(1) [OF v] .
  from node.prems(2) obtain c where c: "c \<in> set (children n)" "d = c \<or> d \<in> set (descendants c)"
    by (subst (asm) descendants_children) auto
  have cn: "c \<in> set nodes" using wf_child(1) [OF w node.prems(1) c(1)] .
  have "node_id c \<in> set vis \<and> (d = c \<or> d \<in> set (visible_descendants vis c))"
  proof (cases "d = c")
    case True with node.prems(3) show ?thesis by simp
  next
    case False
    with c(2) have dc: "d \<in> set (descendants c)" by simp
    from node.IH [OF c(1) cn dc node.prems(3)] have dv: "d \<in> set (visible_descendants vis c)" .
    then obtain c' where c': "c' \<in> set (children c)" "node_visiblity vis c'"
      by (subst (asm) visible_descendants_children) auto
    then have "node_id c' \<in> set vis"
      by (simp add: node_visiblity_def node_id_visiblity_iff [OF s])
    from visible_child_parent [OF w v cn c'(1) this] dv show ?thesis by simp
  qed
  then have "node_visiblity vis c" "d = c \<or> d \<in> set (visible_descendants vis c)"
    by (simp_all add: node_visiblity_def node_id_visiblity_iff [OF s])
  with c(1) show ?case
    by (subst visible_descendants_children) auto
qed

lemma hide_children_spec:
  assumes w: "wf_nodes nodes" and v: "valid_state nodes vis" and n: "node \<in> set nodes"
  shows "hide_children vis node =
         Inr (filter (\<lambda>x. x \<notin> node_id ` set (descendants node)) vis)"
proof -
  have s: "sorted_wrt (<) vis" using valid_stateD(1) [OF v] .
  let ?D = "node_id ` set (visible_descendants vis node)"
  have D: "?D \<subseteq> set vis"
    using visible_descendants_visible [of _ vis node]
    by (auto simp: node_visiblity_def node_id_visiblity_iff [OF s])
  have "set (hide_loop vis [node] []) = searchsorted vis ` ?D"
    by (simp add: set_hide_loop image_image del: hide_loop.simps)
  from np_delete_positions [OF s D this]
  have "hide_children vis node = Inr (filter (\<lambda>x. x \<notin> ?D) vis)"
    by (simp add: hide_children_def)
  moreover have "filter (\<lambda>x. x \<notin> ?D) vis =
                 filter (\<lambda>x. x \<notin> node_id ` set (descendants node)) vis"
  proof (rule filter_cong [OF refl])
    fix x assume x: "x \<in> set vis"
    show "(x \<notin> ?D) = (x \<notin> node_id ` set (descendants node))"
      using visible_descendants_subset [of vis node]
        visible_descendants_complete [OF w v n] x by blast
  qed
  ultimately show ?thesis by simp
qed

lemma wf_nth_id_int:
  assumes "wf_nodes nodes" "0 \<le> x" "x < int (length nodes)"
  shows "node_id (nodes ! nat x) = x"
proof -
  from assms(2,3) have "nat x < length nodes" by linarith
  from wf_nth_id [OF assms(1) this] assms(2) show ?thesis by simp
qed

lemma expand_children_valid:
  assumes w: "wf_nodes nodes" and v: "valid_state nodes vis"
    and n: "node \<in> set nodes" and nv: "node_id node \<in> set vis"
  shows "valid_state nodes (expand_children vis node)"
proof (rule valid_stateI)
  have s: "sorted_wrt (<) vis" using valid_stateD(1) [OF v] .
  let ?D = "set (descendants_upto DISPLAY_DEPTH node)"
  have set_eq: "set (expand_children vis node) = set vis \<union> node_id ` ?D"
    using expand_children_spec(2) [OF w n s] .
  show "sorted_wrt (<) (expand_children vis node)"
    using expand_children_spec(1) [OF w n s] .
  show "0 \<in> set (expand_children vis node)"
    using valid_stateD(2) [OF v] set_eq by simp
  have Dn: "\<And>d. d \<in> ?D \<Longrightarrow> d \<in> set nodes"
    using descendants_upto_subset [of DISPLAY_DEPTH node] descendants_wf [OF w n] by blast
  show "\<And>x. x \<in> set (expand_children vis node) \<Longrightarrow> 0 \<le> x \<and> x < int (length nodes)"
    using valid_stateD(3) [OF v] wf_member [OF w Dn] set_eq by auto
  show "\<exists>p. parent (nodes ! nat x) = Some p \<and> p \<in> set (expand_children vis node)"
    if x: "x \<in> set (expand_children vis node)" and x0: "x \<noteq> 0" for x
  proof (cases "x \<in> set vis")
    case True
    from valid_stateD(4) [OF v True x0] set_eq show ?thesis by auto
  next
    case False
    with x set_eq obtain d where d: "d \<in> ?D" "x = node_id d" by auto
    from descendants_upto_parent [OF d(1)] obtain m
      where m: "d \<in> set (children m)" "m = node \<or> m \<in> ?D" by blast
    have mn: "m \<in> set nodes" using m(2) n Dn by blast
    have "parent d = Some (node_id m)" using wf_child(2) [OF w mn m(1)] .
    moreover have "nodes ! nat x = d" using wf_member [OF w Dn [OF d(1)]] d(2) by simp
    moreover have "node_id m \<in> set (expand_children vis node)"
      using m(2) nv set_eq by auto
    ultimately show ?thesis by simp
  qed
qed


lemma py_index_in_range:
  "0 \<le> i \<Longrightarrow> i < int (length xs) \<Longrightarrow> py_index xs i = Inr (xs ! nat i)"
  by (simp add: py_index_def)

lemma node_is_leaf_children: "node_is_leaf node \<longleftrightarrow> children node = []"
  by (cases node) (auto simp: node_is_leaf_def children_def split: option.splits)

lemma node_has_hidden_child_iff:
  "sorted_wrt (<) vis \<Longrightarrow>
   node_has_hidden_child vis node \<longleftrightarrow> (\<exists>c\<in>set (children node). node_id c \<notin> set vis)"
  by (simp add: node_has_hidden_child_def list_ex_iff node_visiblity_def node_id_visiblity_iff)


lemma wf_parent_of:
  assumes w: "wf_nodes nodes" and x: "0 < x" "x < int (length nodes)"
  shows "\<exists>p. parent (nodes ! nat x) = Some p \<and> 0 \<le> p \<and> p < x
             \<and> nodes ! nat x \<in> set (children (nodes ! nat p))"
proof -
  let ?c = "nodes ! nat x"
  have cn: "?c \<in> set nodes" using x by (simp add: wf_nth_member)
  have cid: "node_id ?c = x" using wf_nth_id_int [OF w] x by simp
  from wf_has_parent [OF w cn] cid x obtain m
    where m: "m \<in> set nodes" "?c \<in> set (children m)" by auto
  from wf_child [OF w m] cid wf_member [OF w m(1)] m(2) show ?thesis by auto
qed


lemma expand_all_for_eq:
  "expand_all_for tot Q cs =
     (tot + length (take (MAX_ELEMENTS - tot) (concat (map (\<lambda>c. case c of None \<Rightarrow> [] | Some n \<Rightarrow> [n]) cs))),
      Q @ take (MAX_ELEMENTS - tot) (concat (map (\<lambda>c. case c of None \<Rightarrow> [] | Some n \<Rightarrow> [n]) cs)))"
proof (induction tot Q cs rule: expand_all_for.induct)
  case (1 tot Q) then show ?case by simp
next
  case (2 tot Q rest) then show ?case by simp
next
  case (3 tot Q child rest)
  show ?case
  proof (cases "tot < MAX_ELEMENTS")
    case True
    then obtain m where m: "MAX_ELEMENTS - tot = Suc m" "MAX_ELEMENTS - (tot + 1) = m"
      by (cases "MAX_ELEMENTS - tot") auto
    with True 3 show ?thesis by simp
  next
    case False
    with 3 show ?thesis by simp
  qed
qed

lemma expand_all_for_children:
  "expand_all_for tot Q [left node, right node] =
     (tot + length (take (MAX_ELEMENTS - tot) (children node)),
      Q @ take (MAX_ELEMENTS - tot) (children node))"
  by (simp add: expand_all_for_eq children_def del: expand_all_for.simps)

lemma expand_all_loop_stop:
  "\<not> tot < MAX_ELEMENTS \<Longrightarrow> expand_all_loop Q tot elem = (elem, tot)"
  by (cases Q) simp_all

lemma consecutive_ids:
  "sorted_wrt (<) xs \<Longrightarrow> (\<forall>x\<in>set xs. int t \<le> x) \<Longrightarrow>
   (\<forall>x\<in>set xs. \<forall>j. int t \<le> j \<and> j < x \<longrightarrow> j \<in> set xs) \<Longrightarrow>
   xs = map int [t..<t + length xs]"
proof (induction xs arbitrary: t)
  case Nil then show ?case by simp
next
  case (Cons x xs)
  have x: "x = int t"
  proof (rule ccontr)
    assume "x \<noteq> int t"
    with Cons.prems(2) have "int t < x" by auto
    with Cons.prems(3) have "int t \<in> set (x # xs)" by auto
    with Cons.prems(1) \<open>int t < x\<close> show False by auto
  qed
  have "xs = map int [Suc t..<Suc t + length xs]"
  proof (rule Cons.IH)
    show "sorted_wrt (<) xs" using Cons.prems(1) by simp
    show "\<forall>y\<in>set xs. int (Suc t) \<le> y" using Cons.prems(1) x by auto
    show "\<forall>y\<in>set xs. \<forall>j. int (Suc t) \<le> j \<and> j < y \<longrightarrow> j \<in> set xs"
    proof (intro ballI allI impI)
      fix y j assume y: "y \<in> set xs" and j: "int (Suc t) \<le> j \<and> j < y"
      with Cons.prems(3) have "j \<in> set (x # xs)" by auto
      with j x show "j \<in> set xs" by auto
    qed
  qed
  moreover have "t < t + length (x # xs)" by simp
  then have "[t..<t + length (x # xs)] = t # [Suc t..<t + length (x # xs)]"
    by (rule upt_conv_Cons)
  moreover have "t + length (x # xs) = Suc t + length xs" by simp
  ultimately have "map int [t..<t + length (x # xs)] = int t # xs"
    by (simp only: list.map)
  with x show ?case by simp
qed

lemma children_consecutive:
  assumes w: "wf_nodes nodes" and inv: "bfs_inv nodes k tot" and k: "k < tot"
  shows "map node_id (children (nodes ! k)) =
         map int [tot..<tot + length (children (nodes ! k))]"
proof -
  let ?n = "nodes ! k"
  let ?cs = "children ?n"
  have kn: "k < length nodes" using inv k by (simp add: bfs_inv_def)
  then have nn: "?n \<in> set nodes" by simp
  have nid: "node_id ?n = int k" using wf_nth_id [OF w kn] .
  have "map node_id ?cs = map int [tot..<tot + length (map node_id ?cs)]"
  proof (rule consecutive_ids)
    show "sorted_wrt (<) (map node_id ?cs)" using wf_siblings [OF w nn] .
    show "\<forall>x\<in>set (map node_id ?cs). int tot \<le> x"
    proof
      fix x assume "x \<in> set (map node_id ?cs)"
      then obtain c where c: "c \<in> set ?cs" "x = node_id c" by auto
      from wf_child [OF w nn c(1)] nid
      have cn: "c \<in> set nodes" "parent c = Some (int k)" "int k < node_id c" by simp_all
      show "int tot \<le> x"
      proof (rule ccontr)
        assume "\<not> int tot \<le> x"
        with c(2) cn(3) have j: "0 < nat x" "nat x < tot" by linarith+
        with inv obtain p where "parent (nodes ! nat x) = Some p" "p < int k"
          unfolding bfs_inv_def by blast
        moreover have "nodes ! nat x = c" using wf_member [OF w cn(1)] c(2) by simp
        ultimately show False using cn(2) by simp
      qed
    qed
    show "\<forall>x\<in>set (map node_id ?cs). \<forall>j. int tot \<le> j \<and> j < x \<longrightarrow> j \<in> set (map node_id ?cs)"
    proof (intro ballI allI impI)
      fix x j assume "x \<in> set (map node_id ?cs)" and j: "int tot \<le> j \<and> j < x"
      then obtain c where c: "c \<in> set ?cs" "x = node_id c" by auto
      have cn: "c \<in> set nodes" using wf_child(1) [OF w nn c(1)] .
      have jr: "0 < j" "j < int (length nodes)"
        using j inv wf_member [OF w cn] c(2) by (auto simp: bfs_inv_def)
      from wf_parent_of [OF w jr] obtain p
        where p: "parent (nodes ! nat j) = Some p" "0 \<le> p" "p < j"
          "nodes ! nat j \<in> set (children (nodes ! nat p))" by blast
      have jid: "node_id (nodes ! nat j) = j" using wf_nth_id_int [OF w] jr by simp
      have pr: "nat p < length nodes" using p(2,3) jr by linarith
      have pid: "node_id (nodes ! nat p) = p" using wf_nth_id [OF w pr] p(2) by simp
      consider "p < int k" | "p = int k" | "int k < p" by linarith
      then show "j \<in> set (map node_id ?cs)"
      proof cases
        case 1
        then have "nat p < k" using p(2) by linarith
        with inv p(4) have "node_id (nodes ! nat j) < int tot"
          unfolding bfs_inv_def by blast
        with jid j show ?thesis by simp
      next
        case 2
        then have "nat p = k" by simp
        with p(4) jid show ?thesis by force
      next
        case 3
        have "nodes ! nat p \<in> set nodes" using pr by simp
        from wf_level_order [OF w nn this _ c(1) p(4)] 3 nid pid
        have "node_id c < node_id (nodes ! nat j)" by simp
        with jid c(2) j show ?thesis by simp
      qed
    qed
  qed
  then show ?thesis by simp
qed

lemma bfs_inv_step:
  assumes w: "wf_nodes nodes" and inv: "bfs_inv nodes k tot" and k: "k < tot"
  shows "bfs_inv nodes (Suc k) (tot + length (children (nodes ! k)))"
proof -
  let ?n = "nodes ! k"
  let ?cs = "children ?n"
  let ?tot = "tot + length ?cs"
  have kn: "k < length nodes" using inv k by (simp add: bfs_inv_def)
  then have nn: "?n \<in> set nodes" by simp
  have nid: "node_id ?n = int k" using wf_nth_id [OF w kn] .
  have ids: "map node_id ?cs = map int [tot..<?tot]" using children_consecutive [OF w inv k] .
  have child_of: "\<exists>c\<in>set ?cs. node_id c = int j" if "tot \<le> j" "j < ?tot" for j
  proof -
    from that have "int j \<in> set (map int [tot..<?tot])" by simp
    with ids have "int j \<in> set (map node_id ?cs)" by simp
    then show ?thesis by auto
  qed
  have le: "?tot \<le> length nodes"
  proof (cases "?cs = []")
    case True with inv show ?thesis by (simp add: bfs_inv_def)
  next
    case False
    then have "tot \<le> ?tot - 1" "?tot - 1 < ?tot" by (cases ?cs; simp)+
    from child_of [OF this] obtain c where c: "c \<in> set ?cs" "node_id c = int (?tot - 1)" by blast
    from wf_member [OF w wf_child(1) [OF w nn c(1)]] c(2) show ?thesis by linarith
  qed
  have b: "\<exists>p. parent (nodes ! j) = Some p \<and> p < int (Suc k)" if j: "0 < j" "j < ?tot" for j
  proof (cases "j < tot")
    case True
    with inv j(1) obtain p where "parent (nodes ! j) = Some p" "p < int k"
      unfolding bfs_inv_def by blast
    then show ?thesis by auto
  next
    case False
    with child_of [of j] j(2) obtain c where c: "c \<in> set ?cs" "node_id c = int j" by auto
    from wf_child [OF w nn c(1)] nid have "c \<in> set nodes" "parent c = Some (int k)" by simp_all
    moreover from wf_member [OF w this(1)] c(2) have "nodes ! j = c" by simp
    ultimately show ?thesis by simp
  qed
  have c: "node_id c < int ?tot" if i: "i < Suc k" and c: "c \<in> set (children (nodes ! i))" for i c
  proof (cases "i < k")
    case True
    with inv c have "node_id c < int tot" unfolding bfs_inv_def by blast
    then show ?thesis by simp
  next
    case False
    with i have "i = k" by simp
    with c have "node_id c \<in> set (map node_id ?cs)" by simp
    with ids show ?thesis by auto
  qed
  from k inv le b c show ?thesis unfolding bfs_inv_def by auto
qed

lemma bfs_inv_done:
  assumes w: "wf_nodes nodes" and inv: "bfs_inv nodes tot tot"
  shows "tot = length nodes"
proof (rule ccontr)
  assume "tot \<noteq> length nodes"
  with inv have lt: "tot < length nodes" and pos: "0 < tot" by (simp_all add: bfs_inv_def)
  then have "0 < int tot" "int tot < int (length nodes)" by simp_all
  from wf_parent_of [OF w this] obtain p
    where p: "0 \<le> p" "p < int tot" "nodes ! tot \<in> set (children (nodes ! nat p))" by auto
  then have "nat p < tot" by linarith
  with inv p(3) have "node_id (nodes ! tot) < int tot" unfolding bfs_inv_def by blast
  with wf_nth_id [OF w lt] show False by simp
qed

lemma upt_ids_append:
  "k \<le> tot \<Longrightarrow> map int [k..<tot] @ map int [tot..<tot + m] = map int [k..<tot + m]"
proof -
  assume "k \<le> tot"
  then have "[k..<tot + m] = [k..<tot] @ [tot..<tot + m]" by (rule upt_add_eq_append)
  then show ?thesis by (simp only: map_append)
qed

lemma expand_all_loop_spec:
  assumes w: "wf_nodes nodes"
  shows "bfs_inv nodes k tot \<Longrightarrow> set Q \<subseteq> set nodes \<Longrightarrow> map node_id Q = map int [k..<tot]
    \<Longrightarrow> elem = map int [0..<k] \<Longrightarrow> tot \<le> MAX_ELEMENTS \<Longrightarrow> (tot = MAX_ELEMENTS \<longrightarrow> k < tot)
    \<Longrightarrow> \<exists>k'. fst (expand_all_loop Q tot elem) = map int [0..<k'] \<and> k \<le> k'
          \<and> k' \<le> length nodes \<and> k' < MAX_ELEMENTS
          \<and> (Q \<noteq> [] \<and> tot < MAX_ELEMENTS \<longrightarrow> k < k')
          \<and> (snd (expand_all_loop Q tot elem) < MAX_ELEMENTS \<longleftrightarrow> length nodes < MAX_ELEMENTS)
          \<and> (snd (expand_all_loop Q tot elem) < MAX_ELEMENTS \<longrightarrow> k' = length nodes)"
proof (induction Q tot elem arbitrary: k rule: expand_all_loop.induct)
  case (1 tot elem)
  from "1.prems"(1,3) have kt: "k = tot"
  proof -
    from "1.prems"(3) have "length (map int [k..<tot]) = 0" by (metis length_0_conv list.map_disc_iff)
    with "1.prems"(1) show ?thesis by (simp add: bfs_inv_def)
  qed
  with "1.prems"(1) have n: "tot = length nodes" using bfs_inv_done [OF w] by simp
  from kt "1.prems"(5,6) have "tot < MAX_ELEMENTS" by auto
  with kt n "1.prems"(4) show ?case by auto
next
  case (2 node Q tot elem)
  have inv: "bfs_inv nodes k tot" by fact
  have tn: "tot \<le> length nodes" "k \<le> tot" using inv by (simp_all add: bfs_inv_def)
  have kt: "k < tot"
  proof (rule ccontr)
    assume "\<not> k < tot"
    then have "[k..<tot] = []" by simp
    with "2.prems"(3) show False by simp
  qed
  show ?case
  proof (cases "tot < MAX_ELEMENTS")
    case False
    with "2.prems"(5) have "tot = MAX_ELEMENTS" by simp
    with False kt tn "2.prems"(4) show ?thesis by (auto simp: expand_all_loop_stop)
  next
    case True
    have kn: "k < length nodes" using kt tn by simp
    have hd: "node_id node = int k" "map node_id Q = map int [Suc k..<tot]"
      using "2.prems"(3) kt by (simp_all add: upt_conv_Cons)
    have node: "node = nodes ! k"
      using wf_member [OF w, of node] "2.prems"(2) hd(1) by auto
    let ?cs = "children node"
    let ?t = "take (MAX_ELEMENTS - tot) ?cs"
    have ids: "map node_id ?cs = map int [tot..<tot + length ?cs]"
      using children_consecutive [OF w inv kt] node by simp
    have csn: "set ?cs \<subseteq> set nodes"
      using wf_child(1) [OF w, of node] "2.prems"(2) by auto
    have unfold: "expand_all_loop (node # Q) tot elem =
                  expand_all_loop (Q @ ?t) (tot + length ?t) (elem @ [node_id node])"
      using True by (simp add: expand_all_for_children del: expand_all_for.simps)
    have elem': "elem @ [node_id node] = map int [0..<Suc k]"
      using "2.prems"(4) hd(1) by simp
    show ?thesis
    proof (cases "length ?cs \<le> MAX_ELEMENTS - tot")
      case fits: True
      then have t: "?t = ?cs" by simp
      have inv': "bfs_inv nodes (Suc k) (tot + length ?cs)"
        using bfs_inv_step [OF w inv kt] node by simp
      have "\<exists>k'. fst (expand_all_loop (snd (expand_all_for tot Q [left node, right node]))
                       (fst (expand_all_for tot Q [left node, right node])) (elem @ [node_id node]))
                  = map int [0..<k'] \<and> Suc k \<le> k' \<and> k' \<le> length nodes \<and> k' < MAX_ELEMENTS
          \<and> (snd (expand_all_for tot Q [left node, right node]) \<noteq> [] \<and>
               fst (expand_all_for tot Q [left node, right node]) < MAX_ELEMENTS \<longrightarrow> Suc k < k')
          \<and> (snd (expand_all_loop (snd (expand_all_for tot Q [left node, right node]))
                       (fst (expand_all_for tot Q [left node, right node])) (elem @ [node_id node]))
                < MAX_ELEMENTS \<longleftrightarrow> length nodes < MAX_ELEMENTS)
          \<and> (snd (expand_all_loop (snd (expand_all_for tot Q [left node, right node]))
                       (fst (expand_all_for tot Q [left node, right node])) (elem @ [node_id node]))
                < MAX_ELEMENTS \<longrightarrow> k' = length nodes)"
      proof (rule "2.IH" [OF True])
        show "bfs_inv nodes (Suc k) (fst (expand_all_for tot Q [left node, right node]))"
          using inv' t by (simp add: expand_all_for_children del: expand_all_for.simps)
        show "set (snd (expand_all_for tot Q [left node, right node])) \<subseteq> set nodes"
          using csn "2.prems"(2) t by (simp add: expand_all_for_children del: expand_all_for.simps)
        have "map node_id (Q @ ?cs) = map int [Suc k..<tot + length ?cs]"
          using hd(2) ids kt upt_ids_append [of "Suc k" tot "length ?cs"] by simp
        then show "map node_id (snd (expand_all_for tot Q [left node, right node])) =
                   map int [Suc k..<fst (expand_all_for tot Q [left node, right node])]"
          using t by (simp add: expand_all_for_children del: expand_all_for.simps)
        show "elem @ [node_id node] = map int [0..<Suc k]" using elem' .
        show "fst (expand_all_for tot Q [left node, right node]) \<le> MAX_ELEMENTS"
          using fits True t by (simp add: expand_all_for_children del: expand_all_for.simps)
        show "fst (expand_all_for tot Q [left node, right node]) = MAX_ELEMENTS \<longrightarrow>
              Suc k < fst (expand_all_for tot Q [left node, right node])"
          using True kt t by (simp add: expand_all_for_children del: expand_all_for.simps)
      qed
      then show ?thesis using True by (auto simp del: expand_all_for.simps)
    next
      case over: False
      then have lt: "length ?t = MAX_ELEMENTS - tot" by simp
      with True have "tot + length ?t = MAX_ELEMENTS" by simp
      with unfold have res: "expand_all_loop (node # Q) tot elem = (elem @ [node_id node], MAX_ELEMENTS)"
        by (simp add: expand_all_loop_stop del: expand_all_loop.simps)
      have "bfs_inv nodes (Suc k) (tot + length ?cs)"
        using bfs_inv_step [OF w inv kt] node by simp
      then have "tot + length ?cs \<le> length nodes" by (simp add: bfs_inv_def)
      with over True have "\<not> length nodes < MAX_ELEMENTS" by simp
      with res elem' kn kt True show ?thesis
        by (intro exI [of _ "Suc k"]) (simp del: expand_all_loop.simps)
    qed
  qed
qed

lemma prefix_valid_state:
  assumes w: "wf_nodes nodes" and k: "1 \<le> k" "k \<le> length nodes"
  shows "valid_state nodes (map int [0..<k])"
proof (rule valid_stateI)
  show "sorted_wrt (<) (map int [0..<k])"
    by (simp add: sorted_wrt_map strict_sorted_iff)
  show "0 \<in> set (map int [0..<k])" using k(1) by force
  show "\<And>x. x \<in> set (map int [0..<k]) \<Longrightarrow> 0 \<le> x \<and> x < int (length nodes)"
    using k(2) by auto
  show "\<exists>p. parent (nodes ! nat x) = Some p \<and> p \<in> set (map int [0..<k])"
    if x: "x \<in> set (map int [0..<k])" and x0: "x \<noteq> 0" for x
  proof -
    from x x0 k(2) have r: "0 < x" "x < int (length nodes)" "x < int k" by auto
    from wf_parent_of [OF w r(1,2)] obtain p
      where p: "parent (nodes ! nat x) = Some p" "0 \<le> p" "p < x" by blast
    then have "nat p < k" using r(3) by linarith
    then have "nat p \<in> set [0..<k]" by simp
    then have "int (nat p) \<in> int ` set [0..<k]" by (rule imageI)
    moreover have "int (nat p) = p" using p(2) by simp
    ultimately have "p \<in> set (map int [0..<k])" by (simp only: set_map)
    with p(1) show ?thesis by blast
  qed
qed

lemma bfs_inv_init: "wf_nodes nodes \<Longrightarrow> bfs_inv nodes 0 1"
  using wf_root(1) [of nodes] by (cases nodes) (simp_all add: bfs_inv_def)

lemma expand_all_spec:
  assumes w: "wf_nodes nodes"
  shows "\<exists>k. expand_all nodes = Inr (map int [0..<k], length nodes < MAX_ELEMENTS)
           \<and> 1 \<le> k \<and> k \<le> length nodes \<and> k < MAX_ELEMENTS
           \<and> (length nodes < MAX_ELEMENTS \<longrightarrow> k = length nodes)"
proof -
  have ne: "nodes \<noteq> []" using wf_root(1) [OF w] .
  then have idx: "py_index nodes 0 = Inr (nodes ! 0)" by (simp add: py_index_def)
  have "\<exists>k'. fst (expand_all_loop [nodes ! 0] 1 []) = map int [0..<k'] \<and> 0 \<le> k'
          \<and> k' \<le> length nodes \<and> k' < MAX_ELEMENTS
          \<and> ([nodes ! 0] \<noteq> [] \<and> 1 < MAX_ELEMENTS \<longrightarrow> 0 < k')
          \<and> (snd (expand_all_loop [nodes ! 0] 1 []) < MAX_ELEMENTS \<longleftrightarrow> length nodes < MAX_ELEMENTS)
          \<and> (snd (expand_all_loop [nodes ! 0] 1 []) < MAX_ELEMENTS \<longrightarrow> k' = length nodes)"
  proof (rule expand_all_loop_spec [OF w bfs_inv_init [OF w]])
    show "set [nodes ! 0] \<subseteq> set nodes" using ne by simp
    show "map node_id [nodes ! 0] = map int [0..<1]" using wf_root(3) [OF w] by simp
    show "[] = map int [0..<0]" by simp
    show "1 \<le> MAX_ELEMENTS" by (simp add: MAX_ELEMENTS_def)
    show "1 = MAX_ELEMENTS \<longrightarrow> 0 < (1::nat)" by simp
  qed
  then obtain k' where k': "fst (expand_all_loop [nodes ! 0] 1 []) = map int [0..<k']"
    "k' \<le> length nodes" "k' < MAX_ELEMENTS" "1 < MAX_ELEMENTS \<longrightarrow> 0 < k'"
    "snd (expand_all_loop [nodes ! 0] 1 []) < MAX_ELEMENTS \<longleftrightarrow> length nodes < MAX_ELEMENTS"
    "snd (expand_all_loop [nodes ! 0] 1 []) < MAX_ELEMENTS \<longrightarrow> k' = length nodes"
    by blast
  have "1 < MAX_ELEMENTS" by (simp add: MAX_ELEMENTS_def)
  with k'(4) have "1 \<le> k'" by simp
  moreover have "expand_all nodes = Inr (map int [0..<k'], length nodes < MAX_ELEMENTS)"
    using k'(1,5) idx
    by (simp add: expand_all_def split_beta del: expand_all_loop.simps)
  ultimately show ?thesis using k'(2,3,5,6) by blast
qed

lemma expand_children_expandSubtree:
  assumes w: "wf_nodes nodes" and n: "node \<in> set nodes" and s: "sorted_wrt (<) vis"
  shows "expand_children vis node = expandSubtree vis node DISPLAY_DEPTH"
proof -
  have "sorted_wrt (<) (expand_children vis node)"
    using expand_children_spec(1) [OF w n s] .
  then have "sorted (expand_children vis node)" "distinct (expand_children vis node)"
    by (simp_all add: strict_sorted_iff)
  then have "sorted_list_of_set (set (expand_children vis node)) = expand_children vis node"
    by (rule sorted_list_of_set.idem_if_sorted_distinct)
  then show ?thesis
    by (simp add: expandSubtree_def expand_children_spec(2) [OF w n s])
qed

lemma on_tap_node_spec:
  assumes w: "wf_nodes nodes" and v: "valid_state nodes vis"
  shows "on_tap_node nodes vis i = Inr (toggle nodes vis i)"
proof -
  have s: "sorted_wrt (<) vis" using valid_stateD(1) [OF v] .
  show ?thesis
  proof (cases "i \<in> set vis")
    case False
    then show ?thesis
      by (simp add: on_tap_node_def toggle_def node_id_visiblity_iff [OF s])
  next
    case True
    then have r: "0 \<le> i" "i < int (length nodes)" using valid_stateD(3) [OF v] by simp_all
    let ?node = "nodes ! nat i"
    have nn: "?node \<in> set nodes" using r by (simp add: wf_nth_member)
    have "on_tap_node nodes vis i =
          (if node_is_leaf ?node then Inr vis
           else if node_has_hidden_child vis ?node then Inr (expand_children vis ?node)
           else hide_children vis ?node)"
      using True r by (simp add: on_tap_node_def node_id_visiblity_iff [OF s] py_index_in_range)
    also have "\<dots> = Inr (toggle nodes vis i)"
      using True r
      by (simp add: toggle_def node_is_leaf_children node_has_hidden_child_iff [OF s]
          expand_children_expandSubtree [OF w nn s] hide_children_spec [OF w v nn]
          collapseSubtree_def)
    finally show ?thesis .
  qed
qed


lemma example_wf: "wf_nodes example_nodes"
  by (simp add: wf_nodes_def example_defs children_def upt_conv_Cons)

lemma example_valid_012: "valid_state example_nodes [0, 1, 2]"
  by (simp add: valid_state_def example_defs)


lemma wf_nodes_tree_nodes: "wf_nodes nodes \<Longrightarrow> tree_nodes nodes"
  unfolding wf_nodes_def tree_nodes_def by (elim conjE) (intro conjI)

lemma unordered_tree_nodes: "tree_nodes unordered_nodes"
  by (simp add: tree_nodes_def unordered_defs children_def upt_conv_Cons)

lemma unordered_not_wf: "\<not> wf_nodes unordered_nodes"
proof
  assume w: "wf_nodes unordered_nodes"
  have "unordered_node1 \<in> set unordered_nodes" "unordered_node2 \<in> set unordered_nodes"
    "node_id unordered_node1 < node_id unordered_node2"
    "unordered_node4 \<in> set (children unordered_node1)"
    "unordered_node3 \<in> set (children unordered_node2)"
    by (simp_all add: unordered_defs children_def)
  from wf_level_order [OF w this] show False by (simp add: unordered_defs)
qed

lemma unordered_valid_0: "valid_state unordered_nodes [0]"
  by (simp add: valid_state_def unordered_defs)

lemma set_snp_merge_drop: "set (snp_merge_drop a b) = set a \<union> set b"
  by (simp add: snp_merge_drop_def set_snp_merge)

lemma set_expand_loop:
  "set (expand_loop 1 [node] []) = node_id ` set (descendants_upto DISPLAY_DEPTH node)"
proof -
  have "expand_loop 1 [node] [] = map node_id (bfs_levels DISPLAY_DEPTH [node])"
    using expand_loop_eq [of 1 "[node]" "[]"] by (simp add: DISPLAY_DEPTH_def)
  then show ?thesis by (simp add: set_bfs_levels)
qed

section \<open>The visibility invariant\<close>




section \<open>Toggling a node\<close>

text \<open>
  C4, as amended. On a node table in level order (\<open>wf_nodes\<close>) and a valid visibility
  state, \<open>on_tap_node\<close> never raises, whatever integer it is given, and does what
  \<open>toggle\<close> of the spec says: nothing for an id out of range (negative ids included) or
  not visible, nothing for a leaf, \<open>expandSubtree\<close> down to \<open>DISPLAY_DEPTH\<close> levels
  when a child is hidden, and \<open>collapseSubtree\<close> otherwise.
\<close>

theorem on_tap_node_toggle:
  assumes "wf_nodes nodes" and "valid_state nodes vis"
  shows "on_tap_node nodes vis i = Inr (toggle nodes vis i)"
  using assms by (rule on_tap_node_spec)

theorem on_tap_node_toggle_witness:
  "wf_nodes example_nodes \<and> valid_state example_nodes [0, 1, 2]
   \<and> toggle example_nodes [0, 1, 2] 2 = [0, 1, 2, 4]
   \<and> toggle example_nodes [0, 1, 2] 7 = [0, 1, 2]
   \<and> toggle example_nodes [0, 1, 2] (- 1) = [0, 1, 2]"
proof -
  have "on_tap_node example_nodes [0, 1, 2] 2 = Inr [0, 1, 2, 4]"
    by (simp add: on_tap_node_def node_id_visiblity_def searchsorted_def py_index_def
        node_is_leaf_def node_has_hidden_child_def node_visiblity_def children_def
        expand_children_def expand_loop.simps snp_merge_drop_def DISPLAY_DEPTH_def example_defs)
  moreover have "on_tap_node example_nodes [0, 1, 2] 7 = Inr [0, 1, 2]"
    by (simp add: on_tap_node_def example_defs)
  moreover have "on_tap_node example_nodes [0, 1, 2] (- 1) = Inr [0, 1, 2]"
    by (simp add: on_tap_node_def node_id_visiblity_def searchsorted_def example_defs)
  ultimately show ?thesis
    using on_tap_node_toggle [OF example_wf example_valid_012] example_wf example_valid_012
    by simp
qed

text \<open>
  The claim as stated, for every tree that section 3 of the spec allows, fails: on the tree
  above that is not in level order, with only the root visible, tapping the root calls
  \<open>expand_children\<close>, which merges the ids in the order the traversal finds them and
  stores \<open>[0, 1, 2, 4, 3]\<close>; \<open>expandSubtree\<close> of the spec is the sorted union
  \<open>[0, 1, 2, 3, 4]\<close>.
\<close>

theorem on_tap_node_unordered_counterexample:
  "tree_nodes unordered_nodes \<and> valid_state unordered_nodes [0]
   \<and> on_tap_node unordered_nodes [0] 0 = Inr [0, 1, 2, 4, 3]
   \<and> toggle unordered_nodes [0] 0 = [0, 1, 2, 3, 4]
   \<and> on_tap_node unordered_nodes [0] 0 \<noteq> Inr (toggle unordered_nodes [0] 0)"
proof -
  have t: "on_tap_node unordered_nodes [0] 0 = Inr [0, 1, 2, 4, 3]"
    by (simp add: on_tap_node_def node_id_visiblity_def searchsorted_def py_index_def
        node_is_leaf_def node_has_hidden_child_def node_visiblity_def children_def
        expand_children_def expand_loop.simps snp_merge_drop_def DISPLAY_DEPTH_def
        unordered_defs)
  have d: "set [0] \<union> node_id ` set (descendants_upto DISPLAY_DEPTH unordered_root)
           = set [0, 1, 2, 3, 4::int]"
    by (auto simp: DISPLAY_DEPTH_def numeral_3_eq_3 children_def unordered_defs)
  have "sorted_list_of_set (set [0, 1, 2, 3, 4::int]) = [0, 1, 2, 3, 4]"
    by (rule sorted_list_of_set.idem_if_sorted_distinct) simp_all
  with d have "expandSubtree [0] unordered_root DISPLAY_DEPTH = [0, 1, 2, 3, 4]"
    by (simp only: expandSubtree_def)
  moreover have "toggle unordered_nodes [0] 0 = expandSubtree [0] unordered_root DISPLAY_DEPTH"
    by (simp add: toggle_def children_def unordered_defs)
  ultimately have g: "toggle unordered_nodes [0] 0 = [0, 1, 2, 3, 4]" by simp
  from t g unordered_tree_nodes unordered_valid_0 show ?thesis by simp
qed

section \<open>Validation of an untrusted token\<close>

text \<open>
  C5. The claim: for every decoded id array, also one that repeats the root id 0, holds
  negative ids or is out of order, validation never raises and returns a structurally
  valid visibility array. The code does not: on the array \<open>[0, 0]\<close> the second element
  is the root, whose parent is \<open>None\<close>, and \<open>.parent.id\<close> raises; a negative id is
  looked up from the end of the node list and kept under its own (negative) value; ids out
  of order or repeated are kept as they come.
\<close>

theorem validate_raises_on_repeated_root:
  "validate_visiblity_state example_nodes [0, 0] = Inl AttributeError
   \<and> validate_visiblity_state example_nodes [0, -3] = Inr [0, -3]
   \<and> validate_visiblity_state example_nodes [0, 2, 1] = Inr [0, 2, 1]
   \<and> validate_visiblity_state example_nodes [0, 1, 1] = Inr [0, 1, 1]
   \<and> validate_visiblity_state example_nodes [0, -6] = Inl IndexError"
  by (simp add: validate_visiblity_state_def py_index_def example_defs)

section \<open>Expanding and collapsing the same node\<close>

lemma no_visible_child_no_descendant:
  assumes w: "wf_nodes nodes" and v: "valid_state nodes vis" and n: "node \<in> set nodes"
    and hidden: "\<forall>c\<in>set (children node). node_id c \<notin> set vis"
    and d: "d \<in> set (descendants node)"
  shows "node_id d \<notin> set vis"
proof
  assume "node_id d \<in> set vis"
  from visible_descendants_complete [OF w v n d this]
  obtain c where "c \<in> set (children node)" "node_visiblity vis c"
    by (subst (asm) visible_descendants_children) auto
  with hidden valid_stateD(1) [OF v] show False
    by (simp add: node_visiblity_def node_id_visiblity_iff)
qed

lemma example_expand_2: "expand_children [0, 1, 2] example_node2 = [0, 1, 2, 4]"
  by (simp add: expand_children_def expand_loop.simps snp_merge_drop_def children_def
      DISPLAY_DEPTH_def example_defs)

text \<open>
  C6, as amended. On a well-formed node table and a valid visibility state, for a visible
  node none of whose children is visible, \<open>expand_children\<close> followed by
  \<open>hide_children\<close> on the same node gives back the array as it was.
\<close>

theorem expand_then_hide:
  assumes w: "wf_nodes nodes" and v: "valid_state nodes vis"
    and n: "node \<in> set nodes" and nv: "node_id node \<in> set vis"
    and hidden: "\<forall>child\<in>set (children node). node_id child \<notin> set vis"
  shows "hide_children (expand_children vis node) node = Inr vis"
proof -
  let ?s1 = "expand_children vis node"
  let ?D = "node_id ` set (descendants node)"
  have s: "sorted_wrt (<) vis" using valid_stateD(1) [OF v] .
  have v1: "valid_state nodes ?s1" using expand_children_valid [OF w v n nv] .
  have set1: "set ?s1 = set vis \<union> node_id ` set (descendants_upto DISPLAY_DEPTH node)"
    using expand_children_spec(2) [OF w n s] .
  have h: "hide_children ?s1 node = Inr (filter (\<lambda>x. x \<notin> ?D) ?s1)"
    using hide_children_spec [OF w v1 n] .
  have disj: "set vis \<inter> ?D = {}"
    using no_visible_child_no_descendant [OF w v n hidden] by auto
  have "set (filter (\<lambda>x. x \<notin> ?D) ?s1) = set vis"
    using set1 disj descendants_upto_subset [of DISPLAY_DEPTH node] by auto
  moreover have "sorted_wrt (<) (filter (\<lambda>x. x \<notin> ?D) ?s1)"
    using valid_stateD(1) [OF v1] by (rule sorted_wrt_filter)
  ultimately have "filter (\<lambda>x. x \<notin> ?D) ?s1 = vis"
    using s by (simp add: strict_sorted_iff sorted_distinct_set_unique)
  with h show ?thesis by simp
qed

theorem expand_then_hide_witness:
  "wf_nodes example_nodes \<and> valid_state example_nodes [0, 1, 2]
   \<and> example_node2 \<in> set example_nodes \<and> node_id example_node2 \<in> set [0, 1, 2]
   \<and> children example_node2 = [example_node4] \<and> node_id example_node4 \<notin> set [0, 1, 2]
   \<and> hide_children [0, 1, 2, 4] example_node2 = Inr [0, 1, 2]"
proof -
  have m: "example_node2 \<in> set example_nodes" "node_id example_node2 \<in> set [0, 1, 2]"
    "children example_node2 = [example_node4]" "node_id example_node4 \<notin> set [0, 1, 2]"
    by (simp_all add: example_defs children_def)
  then have "\<forall>child\<in>set (children example_node2). node_id child \<notin> set [0, 1, 2]" by simp
  from expand_then_hide [OF example_wf example_valid_012 m(1,2) this] example_expand_2
  have "hide_children [0, 1, 2, 4] example_node2 = Inr [0, 1, 2]" by simp
  with m example_wf example_valid_012 show ?thesis by simp
qed

text \<open>
  The claim as stated, for every visible node that is not a leaf, fails:
  \<open>hide_children\<close> removes every visible descendant, also those that were visible
  before the expansion. In the example tree with the state \<open>[0, 1, 2]\<close>, expanding the
  root gives \<open>[0, 1, 2, 3, 4]\<close> and collapsing it gives \<open>[0]\<close>.
\<close>

theorem expand_then_hide_counterexample:
  "wf_nodes example_nodes \<and> valid_state example_nodes [0, 1, 2]
   \<and> example_root \<in> set example_nodes \<and> node_id example_root \<in> set [0, 1, 2]
   \<and> \<not> node_is_leaf example_root
   \<and> expand_children [0, 1, 2] example_root = [0, 1, 2, 3, 4]
   \<and> hide_children (expand_children [0, 1, 2] example_root) example_root = Inr [0]
   \<and> hide_children (expand_children [0, 1, 2] example_root) example_root \<noteq> Inr [0, 1, 2]"
proof -
  have e: "expand_children [0, 1, 2] example_root = [0, 1, 2, 3, 4]"
    by (simp add: expand_children_def expand_loop.simps snp_merge_drop_def children_def
        DISPLAY_DEPTH_def example_defs)
  have h: "hide_children [0, 1, 2, 3, 4] example_root = Inr [0]"
    by (simp add: hide_children_def hide_loop.simps np_delete_def children_def
        node_visiblity_def node_id_visiblity_def searchsorted_def example_defs)
  have "example_root \<in> set example_nodes" "node_id example_root \<in> set [0, 1, 2]"
    "\<not> node_is_leaf example_root"
    by (simp_all add: example_defs node_is_leaf_def)
  with e h example_wf example_valid_012 show ?thesis by simp
qed

section \<open>The default view\<close>

text \<open>
  C10. On every node table that is not empty, a sparse visibility set constructed without
  a token does not raise, and its array holds exactly the root id 0 and the ids of the
  descendants of the root \<open>nodes[0]\<close> down to \<open>DISPLAY_DEPTH\<close> levels, and nothing
  else. No condition on the ids is needed for that; on a table in level order the array is
  also strictly ascending.
\<close>

theorem default_view:
  assumes "nodes \<noteq> []"
  shows "\<exists>vis. Nodes_init nodes None validate = Inr vis
           \<and> set vis = insert 0 (node_id ` set (descendants_upto DISPLAY_DEPTH (nodes ! 0)))
           \<and> (wf_nodes nodes \<longrightarrow> sorted_wrt (<) vis)"
proof -
  have init: "Nodes_init nodes None validate = Inr (expand_children [0] (nodes ! 0))"
    using assms by (simp add: Nodes_init_def py_index_def)
  have set: "set (expand_children [0] (nodes ! 0)) =
             insert 0 (node_id ` set (descendants_upto DISPLAY_DEPTH (nodes ! 0)))"
    using set_expand_loop [of "nodes ! 0"] by (simp add: expand_children_def set_snp_merge_drop)
  have sorted: "sorted_wrt (<) (expand_children [0] (nodes ! 0))" if w: "wf_nodes nodes"
  proof -
    have "sorted_wrt (<) [0::int]" by simp
    from expand_children_spec(1) [OF w wf_root(4) [OF w] this] show ?thesis .
  qed
  from init set sorted show ?thesis by blast
qed

theorem default_view_witness:
  "unordered_nodes \<noteq> [] \<and> example_nodes \<noteq> []
   \<and> Nodes_init unordered_nodes None True = Inr [0, 1, 2, 4, 3]
   \<and> Nodes_init example_nodes None True = Inr [0, 1, 2, 3, 4]
   \<and> (\<exists>vis. Nodes_init unordered_nodes None True = Inr vis
          \<and> set vis = insert 0 (node_id ` set (descendants_upto DISPLAY_DEPTH (unordered_nodes ! 0))))
   \<and> (\<exists>vis. Nodes_init example_nodes None True = Inr vis
          \<and> set vis = insert 0 (node_id ` set (descendants_upto DISPLAY_DEPTH (example_nodes ! 0)))
          \<and> sorted_wrt (<) vis)"
proof -
  have u: "unordered_nodes \<noteq> []" and e: "example_nodes \<noteq> []"
    by (simp_all add: unordered_defs example_defs)
  have "Nodes_init unordered_nodes None True = Inr [0, 1, 2, 4, 3]"
    by (simp add: Nodes_init_def py_index_def expand_children_def expand_loop.simps
        snp_merge_drop_def children_def DISPLAY_DEPTH_def unordered_defs)
  moreover have "Nodes_init example_nodes None True = Inr [0, 1, 2, 3, 4]"
    by (simp add: Nodes_init_def py_index_def expand_children_def expand_loop.simps
        snp_merge_drop_def children_def DISPLAY_DEPTH_def example_defs)
  ultimately show ?thesis
    using default_view [OF u, of True] default_view [OF e, of True] u e example_wf by blast
qed

section \<open>Expanding the whole tree\<close>

text \<open>
  C3, as amended. On a well-formed node table \<open>expand_all\<close> does not raise. It returns
  true exactly when the tree has fewer than \<open>MAX_ELEMENTS\<close> nodes. The array it stores
  is shorter than \<open>MAX_ELEMENTS\<close>, is a valid visibility state, and holds the ids
  \<open>0, 1, \<dots>\<close> up to its length in ascending order, which is the order the breadth-first
  traversal finds them in; when the result is true the array holds every id of the tree.
\<close>

theorem expand_all_result:
  assumes "wf_nodes nodes"
  shows "\<exists>vis. expand_all nodes = Inr (vis, length nodes < MAX_ELEMENTS)
           \<and> length vis < MAX_ELEMENTS \<and> valid_state nodes vis
           \<and> vis = map int [0..<length vis]
           \<and> (length nodes < MAX_ELEMENTS \<longrightarrow> vis = map int [0..<length nodes])"
proof -
  from expand_all_spec [OF assms] obtain k
    where k: "expand_all nodes = Inr (map int [0..<k], length nodes < MAX_ELEMENTS)"
      "1 \<le> k" "k \<le> length nodes" "k < MAX_ELEMENTS"
      "length nodes < MAX_ELEMENTS \<longrightarrow> k = length nodes" by blast
  have "valid_state nodes (map int [0..<k])"
    using prefix_valid_state [OF assms k(2,3)] .
  with k show ?thesis by (intro exI [of _ "map int [0..<k]"]) simp
qed

theorem expand_all_result_witness:
  "wf_nodes example_nodes
   \<and> expand_all example_nodes = Inr ([0, 1, 2, 3, 4], True)
   \<and> length example_nodes < MAX_ELEMENTS
   \<and> valid_state example_nodes [0, 1, 2, 3, 4]"
proof -
  have e: "expand_all example_nodes = Inr ([0, 1, 2, 3, 4], True)"
    by (simp add: expand_all_def py_index_def MAX_ELEMENTS_def example_defs)
  have l: "length example_nodes < MAX_ELEMENTS"
    by (simp add: MAX_ELEMENTS_def example_defs)
  from expand_all_result [OF example_wf] e l example_wf show ?thesis by auto
qed

text \<open>
  A tree of \<open>n\<close> nodes in which every node but the last has a left child only.
\<close>

fun chain_from :: "nat \<Rightarrow> nat \<Rightarrow> DecisionTreeNode" where
  "chain_from i 0 =
     DecisionTreeNode (int i) (if i = 0 then None else Some (int i - 1)) None None"
| "chain_from i (Suc m) =
     DecisionTreeNode (int i) (if i = 0 then None else Some (int i - 1))
       (Some (chain_from (Suc i) m)) None"

definition chain_nodes :: "nat \<Rightarrow> DecisionTreeNode list" where
  "chain_nodes n = map (\<lambda>i. chain_from i (n - 1 - i)) [0..<n]"

lemma chain_from_id [simp]: "node_id (chain_from i m) = int i"
  by (cases m) simp_all

lemma chain_from_parent [simp]:
  "parent (chain_from i m) = (if i = 0 then None else Some (int i - 1))"
  by (cases m) simp_all

lemma chain_from_children:
  "children (chain_from i m) = (case m of 0 \<Rightarrow> [] | Suc k \<Rightarrow> [chain_from (Suc i) k])"
  by (cases m) (simp_all add: children_def)

declare chain_from.simps [simp del]

lemma chain_nodes_member:
  "c \<in> set (chain_nodes n) \<longleftrightarrow> (\<exists>i<n. c = chain_from i (n - 1 - i))"
  by (auto simp: chain_nodes_def)

lemma chain_nodes_wf:
  assumes n: "0 < n"
  shows "wf_nodes (chain_nodes n)"
proof -
  have 1: "chain_nodes n \<noteq> []" using n by (simp add: chain_nodes_def)
  have 2: "map node_id (chain_nodes n) = map int [0..<length (chain_nodes n)]"
    by (simp add: chain_nodes_def)
  have 3: "parent (chain_nodes n ! 0) = None" using n by (simp add: chain_nodes_def)
  have child: "\<exists>i. Suc i < n \<and> a = chain_from i (n - 1 - i) \<and> c = chain_from (Suc i) (n - 1 - Suc i)"
    if "a \<in> set (chain_nodes n)" "c \<in> set (children a)" for a c
  proof -
    from that(1) obtain i where i: "i < n" "a = chain_from i (n - 1 - i)"
      by (auto simp: chain_nodes_member)
    with that(2) obtain k where k: "n - 1 - i = Suc k" "c = chain_from (Suc i) k"
      by (cases "n - 1 - i") (auto simp: chain_from_children)
    then have "Suc i < n" "k = n - 1 - Suc i" by simp_all
    with i k show ?thesis by blast
  qed
  have 4: "\<forall>a\<in>set (chain_nodes n). \<forall>c\<in>set (children a).
        c \<in> set (chain_nodes n) \<and> parent c = Some (node_id a) \<and> node_id a < node_id c"
  proof (intro ballI)
    fix a c assume "a \<in> set (chain_nodes n)" "c \<in> set (children a)"
    from child [OF this] obtain i where "Suc i < n" "a = chain_from i (n - 1 - i)"
      "c = chain_from (Suc i) (n - 1 - Suc i)" by blast
    then show "c \<in> set (chain_nodes n) \<and> parent c = Some (node_id a) \<and> node_id a < node_id c"
      by (auto simp: chain_nodes_member)
  qed
  have 5: "\<forall>c\<in>set (chain_nodes n). node_id c \<noteq> 0 \<longrightarrow>
             (\<exists>a\<in>set (chain_nodes n). c \<in> set (children a))"
  proof (intro ballI impI)
    fix c assume "c \<in> set (chain_nodes n)" "node_id c \<noteq> 0"
    then obtain j where j: "Suc j < n" "c = chain_from (Suc j) (n - 1 - Suc j)"
      by (auto simp: chain_nodes_member gr0_conv_Suc)
    then have "n - 1 - j = Suc (n - 1 - Suc j)" by simp
    then have "c \<in> set (children (chain_from j (n - 1 - j)))"
      using j(2) by (simp add: chain_from_children)
    moreover have "j < n" using j(1) by simp
    then have "chain_from j (n - 1 - j) \<in> set (chain_nodes n)"
      unfolding chain_nodes_member by blast
    ultimately show "\<exists>a\<in>set (chain_nodes n). c \<in> set (children a)" by blast
  qed
  have 6: "\<forall>a\<in>set (chain_nodes n). \<forall>b\<in>set (chain_nodes n). node_id a < node_id b \<longrightarrow>
        (\<forall>x\<in>set (children a). \<forall>y\<in>set (children b). node_id x < node_id y)"
  proof (intro ballI impI)
    fix a b x y
    assume a: "a \<in> set (chain_nodes n)" and b: "b \<in> set (chain_nodes n)"
      and lt: "node_id a < node_id b"
      and x: "x \<in> set (children a)" and y: "y \<in> set (children b)"
    from child [OF a x] child [OF b y] lt show "node_id x < node_id y" by auto
  qed
  have 7: "\<forall>a\<in>set (chain_nodes n). sorted_wrt (<) (map node_id (children a))"
    by (auto simp: chain_nodes_member chain_from_children split: nat.splits)
  from 1 2 3 4 5 6 7 show ?thesis unfolding wf_nodes_def by (intro conjI)
qed

lemma expand_all_loop_chain:
  "i + 1 + m = MAX_ELEMENTS \<Longrightarrow>
   expand_all_loop [chain_from i m] (i + 1) elem = (elem @ map int [i..<i + m], MAX_ELEMENTS)"
proof (induction m arbitrary: i elem)
  case 0
  then show ?case by (simp add: expand_all_loop_stop)
next
  case (Suc m)
  then have lt: "i + 1 < MAX_ELEMENTS" by simp
  have "expand_all_loop [chain_from i (Suc m)] (i + 1) elem =
        expand_all_loop [chain_from (Suc i) m] (Suc i + 1) (elem @ [int i])"
    using lt by (simp add: chain_from.simps)
  also have "\<dots> = ((elem @ [int i]) @ map int [Suc i..<Suc i + m], MAX_ELEMENTS)"
    using Suc.prems by (intro Suc.IH) simp
  also have "(elem @ [int i]) @ map int [Suc i..<Suc i + m] = elem @ map int [i..<i + Suc m]"
    by (simp add: upt_conv_Cons del: upt_Suc)
  finally show ?case .
qed

text \<open>
  The claim as stated, true exactly when the node count is at most the cap, fails for a
  tree of exactly \<open>MAX_ELEMENTS = 500\<close> nodes: the count \<open>tot\<close> reaches 500 when the
  last node is queued, the loop stops before that node is popped, and the result is
  false with the 499 ids before it.
\<close>

theorem expand_all_full_tree_counterexample:
  "wf_nodes (chain_nodes 500) \<and> length (chain_nodes 500) \<le> MAX_ELEMENTS
   \<and> expand_all (chain_nodes 500) = Inr (map int [0..<499], False)"
proof -
  have w: "wf_nodes (chain_nodes 500)" by (rule chain_nodes_wf) simp
  have l: "length (chain_nodes 500) = 500" by (simp add: chain_nodes_def)
  have r: "chain_nodes 500 ! 0 = chain_from 0 499" by (simp add: chain_nodes_def)
  have "expand_all_loop [chain_from 0 499] (0 + 1) [] = ([] @ map int [0..<0 + 499], MAX_ELEMENTS)"
    by (rule expand_all_loop_chain) (simp add: MAX_ELEMENTS_def)
  then have "expand_all (chain_nodes 500) = Inr (map int [0..<499], False)"
    using l r by (simp add: expand_all_def py_index_def del: expand_all_loop.simps)
  with w l show ?thesis by (simp add: MAX_ELEMENTS_def)
qed

section \<open>What validation keeps\<close>









section \<open>The build handle (NodeHolder)\<close>

text \<open>
  One call of a method of \<open>NodeHolder\<close>, by one thread, as a function of the state of
  the handle. An exception is an instance of \<open>Exception\<close> (with its description) or one
  of the exceptions outside that class, which \<open>except Exception\<close> does not catch. A call
  returns, raises, or blocks on the lock.
\<close>

datatype exn = Exception string | KeyboardInterrupt | SystemExit

datatype outcome = Returns | Raises exn | Blocks

text \<open>
  The fields of the handle. \<open>lock\<close> says whether the lock is held; the two atomic flags
  are booleans, the atomic progress word an integer; an attribute that \<open>__init__\<close> does
  not set is \<open>None\<close> until it is assigned.
\<close>

record ('alg, 'cnt) NodeHolder =
  lock :: bool
  progress :: int
  initialize_scheduled :: bool
  initialized_flag :: bool
  cmp_algorithm :: "'alg option"
  idx_use_letter :: "bool option"
  nodes :: "DecisionTreeNode list option"
  operation_cnts :: "'cnt option"
  leaf_cnt :: "int option"

definition set_progress :: "('alg, 'cnt) NodeHolder \<Rightarrow> int \<Rightarrow> int \<Rightarrow> ('alg, 'cnt) NodeHolder" where
  "set_progress self i tot = self\<lparr>progress := or (push_bit 32 i) tot\<rparr>"

definition get_progress :: "('alg, 'cnt) NodeHolder \<Rightarrow> int \<times> int" where
  "get_progress self = (drop_bit 32 (progress self), and (progress self) 0xFFFFFFFF)"

definition NodeHolder_init :: "('alg, 'cnt) NodeHolder" where
  "NodeHolder_init =
     set_progress
       \<lparr>lock = False, progress = 0, initialize_scheduled = False, initialized_flag = False,
        cmp_algorithm = None, idx_use_letter = None, nodes = None, operation_cnts = None,
        leaf_cnt = None\<rparr> 0 1"

text \<open>\<open>bit_test_set\<close> returns the bit as it was and sets it.\<close>

definition get_and_set_initialize_scheduled ::
  "('alg, 'cnt) NodeHolder \<Rightarrow> bool \<times> ('alg, 'cnt) NodeHolder" where
  "get_and_set_initialize_scheduled self =
     (initialize_scheduled self, self\<lparr>initialize_scheduled := True\<rparr>)"

text \<open>
  The generator \<open>decision_tree\<close> is not among the sources; it is a parameter. A run of
  it makes some progress reports through the callback \<open>set_progress_and_yield\<close> and then
  raises or returns the node table, the operation counts and the leaf count.
\<close>

type_synonym ('alg, 'cnt) generator =
  "'alg \<Rightarrow> int \<Rightarrow> (int \<times> int) list \<times> (exn + DecisionTreeNode list \<times> 'cnt \<times> int)"

text \<open>
  \<open>NodeHolder._initialize\<close>: the three attributes are assigned only when the generator
  returns; \<open>except Exception\<close> resets the claim flag and raises the exception again; an
  exception outside \<open>Exception\<close> passes through.
\<close>

definition initialize' ::
  "('alg, 'cnt) generator \<Rightarrow> ('alg, 'cnt) NodeHolder \<Rightarrow> 'alg \<Rightarrow> int
   \<Rightarrow> outcome \<times> ('alg, 'cnt) NodeHolder" where
  "initialize' decision_tree self algorithm N =
     (let (reports, result) = decision_tree algorithm N;
          self = foldl (\<lambda>h (i, tot). set_progress h i tot) self reports
      in case result of
           Inr (built, cnts, leaves) \<Rightarrow>
             (Returns, self\<lparr>nodes := Some built, operation_cnts := Some cnts,
                             leaf_cnt := Some leaves\<rparr>)
         | Inl (Exception e) \<Rightarrow> (Raises (Exception e), self\<lparr>initialize_scheduled := False\<rparr>)
         | Inl e \<Rightarrow> (Raises e, self))"

text \<open>
  \<open>NodeHolder.initialize\<close>: the body runs under \<open>with self.lock\<close>, which releases the
  lock also when the body raises; the completion flag is stored after \<open>_initialize\<close>
  has returned. The table \<open>cmp_algorithms\<close> and the method \<open>idx_use_letter\<close> are
  parameters.
\<close>

definition initialize ::
  "'alg list \<Rightarrow> ('alg \<Rightarrow> int \<Rightarrow> bool) \<Rightarrow> ('alg, 'cnt) generator
   \<Rightarrow> ('alg, 'cnt) NodeHolder \<Rightarrow> int \<Rightarrow> int \<Rightarrow> outcome \<times> ('alg, 'cnt) NodeHolder" where
  "initialize cmp_algorithms use_letter decision_tree self cmp_algorithm_i N =
     (if lock self then (Blocks, self)
      else case py_index cmp_algorithms cmp_algorithm_i of
        Inl e \<Rightarrow> (Raises (Exception ''IndexError''), self)
      | Inr algorithm \<Rightarrow>
          (let self = self\<lparr>lock := True, cmp_algorithm := Some algorithm,
                              idx_use_letter := Some (use_letter algorithm N)\<rparr>
           in case initialize' decision_tree self algorithm N of
                (Returns, self) \<Rightarrow> (Returns, self\<lparr>initialized_flag := True, lock := False\<rparr>)
              | (r, self) \<Rightarrow> (r, self\<lparr>lock := False\<rparr>)))"

definition wait_until_initialized :: "('alg, 'cnt) NodeHolder \<Rightarrow> outcome" where
  "wait_until_initialized self =
     (if initialized_flag self then Returns
      else if lock self then Blocks else Returns)"

text \<open>A handle that a caller has claimed, and two generators that fail.\<close>

definition claimed_holder :: "(nat, nat) NodeHolder" where
  "claimed_holder = snd (get_and_set_initialize_scheduled NodeHolder_init)"

definition failing_generator :: "(nat, nat) generator" where
  "failing_generator algorithm N = ([(0, 6), (1, 6)], Inl (Exception ''generation failed''))"

definition interrupted_generator :: "(nat, nat) generator" where
  "interrupted_generator algorithm N = ([(0, 6)], Inl KeyboardInterrupt)"

text \<open>
  C8, as amended. When the generator raises an exception that is an instance of
  \<open>Exception\<close> during a build, \<open>initialize\<close> raises that exception to its
  caller; in the state it leaves the claim flag is reset, the completion flag is as it was (not set by the failed build), the
  node table, the operation counts and the leaf count are as they were, and the lock is
  free. So the next caller's \<open>get_and_set_initialize_scheduled\<close> wins the claim,
  \<open>wait_until_initialized\<close> never raises, and a later build with a generator that
  returns completes and stores its result.
\<close>

theorem failed_build_can_be_retried:
  fixes self :: "('alg, 'cnt) NodeHolder"
  assumes free: "\<not> lock self"
    and algorithm: "py_index cmp_algorithms cmp_algorithm_i = Inr algorithm"
    and fails: "decision_tree algorithm N = (reports, Inl (Exception e))"
  shows "\<exists>self'. initialize cmp_algorithms use_letter decision_tree self cmp_algorithm_i N
                   = (Raises (Exception e), self')
           \<and> \<not> initialize_scheduled self'
           \<and> initialized_flag self' = initialized_flag self
           \<and> nodes self' = nodes self
           \<and> operation_cnts self' = operation_cnts self
           \<and> leaf_cnt self' = leaf_cnt self
           \<and> \<not> lock self'
           \<and> fst (get_and_set_initialize_scheduled self') = False
           \<and> (\<forall>x. wait_until_initialized self' \<noteq> Raises x)
           \<and> (\<forall>again built cnts leaves reports'.
                 again algorithm N = (reports', Inr (built, cnts, leaves)) \<longrightarrow>
                 (\<exists>self''. initialize cmp_algorithms use_letter again self' cmp_algorithm_i N
                              = (Returns, self'')
                    \<and> initialized_flag self'' \<and> nodes self'' = Some built))"
proof -
  let ?run = "\<lambda>h rs. foldl (\<lambda>h (i, tot). set_progress h i tot) h rs"
  have fold_keeps: "lock (?run h rs) = lock h
      \<and> initialize_scheduled (?run h rs) = initialize_scheduled h
      \<and> initialized_flag (?run h rs) = initialized_flag h
      \<and> nodes (?run h rs) = nodes h
      \<and> operation_cnts (?run h rs) = operation_cnts h
      \<and> leaf_cnt (?run h rs) = leaf_cnt h"
    for h :: "('alg, 'cnt) NodeHolder" and rs
  proof (induction rs arbitrary: h)
    case Nil show ?case by simp
  next
    case (Cons r rs)
    obtain i tot where r: "r = (i, tot)" by (cases r)
    show ?case using Cons [of "set_progress h i tot"] by (simp add: r set_progress_def)
  qed
  let ?h1 = "self\<lparr>lock := True, cmp_algorithm := Some algorithm,
                    idx_use_letter := Some (use_letter algorithm N)\<rparr>"
  let ?h2 = "?run ?h1 reports"
  let ?h3 = "?h2\<lparr>initialize_scheduled := False\<rparr>"
  let ?self' = "?h3\<lparr>lock := False\<rparr>"
  have inner: "initialize' decision_tree ?h1 algorithm N = (Raises (Exception e), ?h3)"
    by (simp add: initialize'_def fails)
  have res: "initialize cmp_algorithms use_letter decision_tree self cmp_algorithm_i N
             = (Raises (Exception e), ?self')"
    unfolding initialize_def Let_def using free algorithm by (simp add: inner)
  have keeps: "\<not> initialize_scheduled ?self'" "initialized_flag ?self' = initialized_flag self"
    "nodes ?self' = nodes self" "operation_cnts ?self' = operation_cnts self"
    "leaf_cnt ?self' = leaf_cnt self" "\<not> lock ?self'"
    using fold_keeps [of ?h1 reports] by simp_all
  have claim: "fst (get_and_set_initialize_scheduled ?self') = False"
    by (simp add: get_and_set_initialize_scheduled_def)
  have waits: "\<forall>x. wait_until_initialized ?self' \<noteq> Raises x"
    by (simp add: wait_until_initialized_def)
  have retry: "\<exists>self''. initialize cmp_algorithms use_letter again ?self' cmp_algorithm_i N
                              = (Returns, self'')
                    \<and> initialized_flag self'' \<and> nodes self'' = Some built"
    if again: "again algorithm N = (reports', Inr (built, cnts, leaves))"
    for again :: "('alg, 'cnt) generator" and built cnts leaves reports'
  proof -
    let ?g1 = "?self'\<lparr>lock := True, cmp_algorithm := Some algorithm,
                    idx_use_letter := Some (use_letter algorithm N)\<rparr>"
    let ?g2 = "(?run ?g1 reports')\<lparr>nodes := Some built, operation_cnts := Some cnts,
                             leaf_cnt := Some leaves\<rparr>"
    have "initialize' again ?g1 algorithm N = (Returns, ?g2)"
      by (simp add: initialize'_def again)
    then have "initialize cmp_algorithms use_letter again ?self' cmp_algorithm_i N
               = (Returns, ?g2\<lparr>initialized_flag := True, lock := False\<rparr>)"
      unfolding initialize_def Let_def using algorithm by simp
    then show ?thesis by simp
  qed
  from res keeps claim waits retry show ?thesis by blast
qed

theorem failed_build_can_be_retried_witness:
  "\<not> lock claimed_holder \<and> initialize_scheduled claimed_holder
   \<and> py_index [0::nat] 0 = Inr 0
   \<and> (\<exists>self'. initialize [0] (\<lambda>algorithm N. True) failing_generator claimed_holder 0 3
                   = (Raises (Exception ''generation failed''), self')
          \<and> \<not> initialize_scheduled self' \<and> \<not> initialized_flag self'
          \<and> nodes self' = None \<and> \<not> lock self')"
proof -
  have f: "\<not> lock claimed_holder" and c: "initialize_scheduled claimed_holder"
    and i: "\<not> initialized_flag claimed_holder" and n: "nodes claimed_holder = None"
    by (simp_all add: claimed_holder_def get_and_set_initialize_scheduled_def
        NodeHolder_init_def set_progress_def)
  have a: "py_index [0::nat] 0 = Inr 0" by (simp add: py_index_def)
  have g: "failing_generator 0 3 = ([(0, 6), (1, 6)], Inl (Exception ''generation failed''))"
    by (simp add: failing_generator_def)
  from failed_build_can_be_retried
         [where decision_tree = failing_generator and algorithm = 0 and N = 3
            and use_letter = "\<lambda>algorithm N. True", OF f a g] f c i n a
  show ?thesis by auto
qed

text \<open>
  The claim as stated, for whatever the generator raises, fails: \<open>except Exception\<close>
  does not catch an exception outside \<open>Exception\<close>, such as \<open>KeyboardInterrupt\<close>.
  It passes through \<open>_initialize\<close> with the claim flag still set, and the next
  caller's \<open>get_and_set_initialize_scheduled\<close> finds the build already claimed.
\<close>

theorem interrupted_build_stays_claimed:
  "fst (initialize [0] (\<lambda>algorithm N. True) interrupted_generator claimed_holder 0 3)
     = Raises KeyboardInterrupt
   \<and> initialize_scheduled
       (snd (initialize [0] (\<lambda>algorithm N. True) interrupted_generator claimed_holder 0 3))
   \<and> fst (get_and_set_initialize_scheduled
            (snd (initialize [0] (\<lambda>algorithm N. True) interrupted_generator claimed_holder 0 3)))
   \<and> \<not> initialized_flag
         (snd (initialize [0] (\<lambda>algorithm N. True) interrupted_generator claimed_holder 0 3))"
  by (simp add: initialize_def initialize'_def interrupted_generator_def py_index_def
      claimed_holder_def get_and_set_initialize_scheduled_def NodeHolder_init_def
      set_progress_def)

section \<open>Building once under concurrent calls\<close>

text \<open>
  A schedule of whole calls by two callers on a fresh handle: both call
  \<open>get_and_set_initialize_scheduled\<close>, then the second calls
  \<open>wait_until_initialized\<close>, and only then the first calls \<open>initialize\<close>, here
  with a generator that returns the example tree.
\<close>

definition returning_generator :: "(nat, nat) generator" where
  "returning_generator algorithm N = ([(0, 6), (6, 6)], Inr (example_nodes, 3, 6))"

definition after_second_claim :: "(nat, nat) NodeHolder" where
  "after_second_claim = snd (get_and_set_initialize_scheduled claimed_holder)"

text \<open>
  C7. The claim: all callers but the one that builds block until the generation has
  finished and then observe the completed result. The code does not ensure it. The first
  caller wins the claim and the second loses it, as claimed; but
  \<open>get_and_set_initialize_scheduled\<close> takes no lock, so until the first caller has
  entered \<open>initialize\<close> the lock is free, and the second caller's
  \<open>wait_until_initialized\<close> passes \<open>with self.lock: pass\<close> and returns while the
  completion flag is unset and no node table is stored. The build that follows completes
  after that caller has returned.
\<close>

theorem second_caller_returns_before_the_build:
  "fst (get_and_set_initialize_scheduled (NodeHolder_init :: (nat, nat) NodeHolder)) = False
   \<and> fst (get_and_set_initialize_scheduled claimed_holder) = True
   \<and> wait_until_initialized after_second_claim = Returns
   \<and> nodes after_second_claim = None
   \<and> \<not> initialized_flag after_second_claim
   \<and> fst (initialize [0] (\<lambda>algorithm N. True) returning_generator after_second_claim 0 3)
       = Returns
   \<and> nodes (snd (initialize [0] (\<lambda>algorithm N. True) returning_generator
                    after_second_claim 0 3)) = Some example_nodes"
  by (simp add: after_second_claim_def claimed_holder_def get_and_set_initialize_scheduled_def
      NodeHolder_init_def set_progress_def wait_until_initialized_def initialize_def
      initialize'_def returning_generator_def py_index_def)

section \<open>The eager view (Elements.py)\<close>

text \<open>
  In the eager view every node is an \<open>ElementNode\<close> object with its node dictionary,
  the dictionary of the edge from its parent (\<open>None\<close> for the root) and its two
  children. Of each dictionary only the entry \<open>visibility\<close> is kept, which is always
  one of the strings \<open>"visible"\<close> and \<open>"hidden"\<close>. The children are objects, so a
  node value carries its subtree, and a method called on an object somewhere in the tree
  changes the tree at that place (\<open>apply_at\<close> below).
\<close>

datatype visibility = Visible | Hidden

datatype ElementNode =
  ElementNode (node_data: visibility) (edge_data: "visibility option")
    (left': "ElementNode option") (right': "ElementNode option")

text \<open>The property \<open>visible\<close> and its setter, which also writes the edge dictionary.\<close>

definition visible :: "ElementNode \<Rightarrow> bool" where
  "visible self \<longleftrightarrow> node_data self = Visible"

fun visible_setter :: "bool \<Rightarrow> ElementNode \<Rightarrow> ElementNode" where
  "visible_setter v (ElementNode nd ed l r) =
     ElementNode (if v then Visible else Hidden)
       (case ed of None \<Rightarrow> None | Some e \<Rightarrow> Some (if v then Visible else Hidden)) l r"

text \<open>\<open>ElementNode.set_child_visible\<close> with its local \<open>dfs(node, depth)\<close>.\<close>

fun dfs_visible :: "nat \<Rightarrow> ElementNode \<Rightarrow> ElementNode" where
  "dfs_visible depth (ElementNode nd ed l r) =
     (if depth \<ge> DISPLAY_DEPTH then ElementNode nd ed l r
      else (case visible_setter True (ElementNode nd ed l r) of
              ElementNode nd' ed' l' r' \<Rightarrow>
                ElementNode nd' ed'
                  (case l of None \<Rightarrow> None | Some child \<Rightarrow> Some (dfs_visible (depth + 1) child))
                  (case r of None \<Rightarrow> None | Some child \<Rightarrow> Some (dfs_visible (depth + 1) child))))"

definition set_child_visible :: "ElementNode \<Rightarrow> ElementNode" where
  "set_child_visible self = dfs_visible 0 self"

text \<open>
  \<open>ElementNode.set_child_hidden\<close> with its local \<open>dfs(node)\<close>: a child that is not
  hidden is hidden and then visited.
\<close>

fun dfs_hidden :: "ElementNode \<Rightarrow> ElementNode" where
  "dfs_hidden (ElementNode nd ed l r) =
     ElementNode nd ed
       (case l of None \<Rightarrow> None
        | Some child \<Rightarrow>
            if node_data child \<noteq> Hidden then Some (visible_setter False (dfs_hidden child))
            else Some child)
       (case r of None \<Rightarrow> None
        | Some child \<Rightarrow>
            if node_data child \<noteq> Hidden then Some (visible_setter False (dfs_hidden child))
            else Some child)"

definition set_child_hidden :: "ElementNode \<Rightarrow> ElementNode" where
  "set_child_hidden self = dfs_hidden self"

text \<open>\<open>Elements.reset\<close>, on the root \<open>element_nodes[0]\<close>.\<close>

definition reset :: "ElementNode \<Rightarrow> ElementNode" where
  "reset root = set_child_visible (set_child_hidden root)"

text \<open>
  The list \<open>self.elements\<close> holds the same dictionaries in the order \<open>__init__\<close>
  appends them: the node, then for each child its edge followed by the child's own
  elements. \<open>get_visiblity\<close> writes one character per element; \<open>set_visiblity\<close>
  zips the elements with the characters of the supplied string, so the element at position
  \<open>k\<close> takes the character at position \<open>k\<close> and elements beyond the string keep
  their value.
\<close>

fun elements :: "ElementNode \<Rightarrow> visibility list" where
  "elements (ElementNode nd ed l r) =
     (case ed of None \<Rightarrow> [] | Some e \<Rightarrow> [e]) @ [nd] @
     (case l of None \<Rightarrow> [] | Some child \<Rightarrow> elements child) @
     (case r of None \<Rightarrow> [] | Some child \<Rightarrow> elements child)"

definition get_visiblity :: "ElementNode \<Rightarrow> string" where
  "get_visiblity root = map (\<lambda>v. if v = Visible then CHR ''1'' else CHR ''0'') (elements root)"

definition flag :: "char \<Rightarrow> visibility" where
  "flag vis = (if vis = CHR ''1'' then Visible else Hidden)"

fun set_from :: "string \<Rightarrow> ElementNode \<Rightarrow> ElementNode" where
  "set_from s (ElementNode nd ed l r) =
     (let ed' = (case ed of None \<Rightarrow> None
                 | Some e \<Rightarrow> (case s of [] \<Rightarrow> Some e | v # t \<Rightarrow> Some (flag v)));
          s0 = (case ed of None \<Rightarrow> s | Some e \<Rightarrow> drop 1 s);
          nd' = (case s0 of [] \<Rightarrow> nd | v # t \<Rightarrow> flag v);
          s1 = drop 1 s0;
          s2 = (case l of None \<Rightarrow> s1 | Some child \<Rightarrow> drop (length (elements child)) s1)
      in ElementNode nd' ed'
           (case l of None \<Rightarrow> None | Some child \<Rightarrow> Some (set_from s1 child))
           (case r of None \<Rightarrow> None | Some child \<Rightarrow> Some (set_from s2 child)))"

definition set_visiblity :: "ElementNode \<Rightarrow> string \<Rightarrow> ElementNode" where
  "set_visiblity root visiblity = set_from visiblity root"

text \<open>
  The connectivity property of the eager view: the parent of every visible node is
  visible.
\<close>

fun connected :: "ElementNode \<Rightarrow> bool" where
  "connected (ElementNode nd ed l r) \<longleftrightarrow>
     (case l of None \<Rightarrow> True | Some child \<Rightarrow> (visible child \<longrightarrow> nd = Visible) \<and> connected child) \<and>
     (case r of None \<Rightarrow> True | Some child \<Rightarrow> (visible child \<longrightarrow> nd = Visible) \<and> connected child)"

text \<open>
  A method applied to the object reached from the root by a path of left (\<open>False\<close>) and
  right (\<open>True\<close>) steps, and whether the parent of that object is visible (true for the
  root, which has none).
\<close>

fun apply_at :: "bool list \<Rightarrow> (ElementNode \<Rightarrow> ElementNode) \<Rightarrow> ElementNode \<Rightarrow> ElementNode" where
  "apply_at [] f node = f node"
| "apply_at (go_right # path) f (ElementNode nd ed l r) =
     (if go_right
      then ElementNode nd ed l
             (case r of None \<Rightarrow> None | Some child \<Rightarrow> Some (apply_at path f child))
      else ElementNode nd ed
             (case l of None \<Rightarrow> None | Some child \<Rightarrow> Some (apply_at path f child)) r)"

fun visible_parent_at :: "bool list \<Rightarrow> ElementNode \<Rightarrow> bool" where
  "visible_parent_at [] node = True"
| "visible_parent_at (go_right # path) (ElementNode nd ed l r) =
     (if path = [] then nd = Visible
      else case (if go_right then r else l) of
             None \<Rightarrow> True
           | Some child \<Rightarrow> visible_parent_at path child)"

text \<open>
  The class \<open>DecisionTreeNode\<close> of the module \<open>decision_tree\<close> as
  \<open>Elements.__init__\<close> reads it for the visibility flags: whether \<open>cmp_xy\<close> is
  \<open>None\<close>, and the two optional children. The id and the labels only go into entries
  of the dictionaries that are not kept here.
\<close>

datatype TreeNode =
  TreeNode (cmp_xy: "(nat \<times> nat) option")
    (left_child: "TreeNode option") (right_child: "TreeNode option")

text \<open>
  The local \<open>dfs(node, parent, edge_data, is_left, depth)\<close> of
  \<open>Elements.__init__\<close>: the node is created visible iff \<open>depth < DISPLAY_DEPTH\<close>
  with the edge dictionary its caller built, which is visible iff the depth of the child is
  below \<open>DISPLAY_DEPTH\<close>; a node whose \<open>cmp_xy\<close> is \<open>None\<close> gets no
  children. \<open>Elements_init\<close> is the call \<open>dfs(root)\<close>.
\<close>

fun element_tree :: "nat \<Rightarrow> visibility option \<Rightarrow> TreeNode \<Rightarrow> ElementNode" where
  "element_tree depth edge (TreeNode c l r) =
     (if c = None
      then ElementNode (if depth < DISPLAY_DEPTH then Visible else Hidden) edge None None
      else ElementNode (if depth < DISPLAY_DEPTH then Visible else Hidden) edge
             (case l of None \<Rightarrow> None
              | Some child \<Rightarrow>
                  Some (element_tree (depth + 1)
                          (Some (if depth + 1 < DISPLAY_DEPTH then Visible else Hidden)) child))
             (case r of None \<Rightarrow> None
              | Some child \<Rightarrow>
                  Some (element_tree (depth + 1)
                          (Some (if depth + 1 < DISPLAY_DEPTH then Visible else Hidden)) child)))"

definition Elements_init :: "TreeNode \<Rightarrow> ElementNode" where
  "Elements_init root = element_tree 0 None root"

text \<open>
  The states of one \<open>Elements\<close> object that the methods of the class lead to:
  the state \<open>__init__\<close> builds, \<open>set_child_hidden\<close> on any node,
  \<open>set_child_visible\<close> on the root or on a node whose parent is visible,
  \<open>reset\<close>, and \<open>set_visiblity\<close> with the string \<open>get_visiblity\<close> gave
  in such a state of the same tree (the object is cached per algorithm and input size, and
  is set from the stored string of whichever viewer is served next).
\<close>

inductive reachable :: "TreeNode \<Rightarrow> ElementNode \<Rightarrow> bool" for root where
  constructed: "reachable root (Elements_init root)"
| hidden: "reachable root s \<Longrightarrow> reachable root (apply_at path set_child_hidden s)"
| shown: "reachable root s \<Longrightarrow> visible_parent_at path s \<Longrightarrow>
          reachable root (apply_at path set_child_visible s)"
| was_reset: "reachable root s \<Longrightarrow> reachable root (reset s)"
| restored: "reachable root s \<Longrightarrow> reachable root saved \<Longrightarrow>
             reachable root (set_visiblity s (get_visiblity saved))"

text \<open>
  The shape of a state: which nodes and edges exist, with every flag forgotten. No method
  changes it.
\<close>

fun shape :: "ElementNode \<Rightarrow> ElementNode" where
  "shape (ElementNode nd ed l r) =
     ElementNode Hidden (case ed of None \<Rightarrow> None | Some e \<Rightarrow> Some Hidden)
       (case l of None \<Rightarrow> None | Some child \<Rightarrow> Some (shape child))
       (case r of None \<Rightarrow> None | Some child \<Rightarrow> Some (shape child))"

text \<open>
  A chain of four comparisons, each with a left child only, ending in a leaf: five nodes
  at depths 0 to 4, of which \<open>__init__\<close> makes the first three visible. In
  \<open>collapsed_chain\<close> the node at depth 1 has been collapsed, in
  \<open>expanded_chain\<close> the hidden node at depth 3, whose parent is visible, has been
  expanded.
\<close>

fun comparison_chain :: "nat \<Rightarrow> TreeNode" where
  "comparison_chain 0 = TreeNode None None None"
| "comparison_chain (Suc n) = TreeNode (Some (0, 1)) (Some (comparison_chain n)) None"

definition deep_chain :: TreeNode where
  "deep_chain = comparison_chain 4"

definition collapsed_chain :: ElementNode where
  "collapsed_chain = apply_at [False] set_child_hidden (Elements_init deep_chain)"

definition expanded_chain :: ElementNode where
  "expanded_chain = apply_at [False, False, False] set_child_visible (Elements_init deep_chain)"

lemma visible_setter_fields [simp]:
  "node_data (visible_setter v n) = (if v then Visible else Hidden)"
  "left' (visible_setter v n) = left' n" "right' (visible_setter v n) = right' n"
  by (cases n; simp)+

lemma connected_fields:
  "connected n \<longleftrightarrow>
     (case left' n of None \<Rightarrow> True
      | Some child \<Rightarrow> (visible child \<longrightarrow> node_data n = Visible) \<and> connected child) \<and>
     (case right' n of None \<Rightarrow> True
      | Some child \<Rightarrow> (visible child \<longrightarrow> node_data n = Visible) \<and> connected child)"
  by (cases n) (auto split: option.splits)

lemma dfs_visible_keeps_visible: "visible n \<Longrightarrow> visible (dfs_visible depth n)"
  by (cases n) (simp add: visible_def)

lemma dfs_visible_makes_visible: "depth < DISPLAY_DEPTH \<Longrightarrow> visible (dfs_visible depth n)"
  by (cases n) (simp add: visible_def)

lemma dfs_visible_connected: "connected n \<Longrightarrow> connected (dfs_visible depth n)"
proof (induction depth n rule: dfs_visible.induct)
  case (1 depth nd ed l r)
  show ?case
  proof (cases "depth \<ge> DISPLAY_DEPTH")
    case True
    with "1.prems" show ?thesis by simp
  next
    case False
    have l: "connected (dfs_visible (depth + 1) c)" if "l = Some c" for c
      using "1.IH"(1) [OF False _ that] "1.prems" that by (cases ed) simp_all
    have r: "connected (dfs_visible (depth + 1) c)" if "r = Some c" for c
      using "1.IH"(2) [OF False _ that] "1.prems" that by (cases ed) simp_all
    from False l r show ?thesis by (cases ed) (auto split: option.splits)
  qed
qed

lemma dfs_hidden_node_data [simp]: "node_data (dfs_hidden n) = node_data n"
  by (cases n) simp

lemma dfs_hidden_children_hidden:
  "(case left' (dfs_hidden n) of None \<Rightarrow> True | Some c \<Rightarrow> \<not> visible c) \<and>
   (case right' (dfs_hidden n) of None \<Rightarrow> True | Some c \<Rightarrow> \<not> visible c)"
  by (cases n) (auto simp: visible_def split: option.splits)

lemma hidden_connected:
  assumes "connected n"
    and "case left' n of None \<Rightarrow> True | Some c \<Rightarrow> \<not> visible c"
    and "case right' n of None \<Rightarrow> True | Some c \<Rightarrow> \<not> visible c"
  shows "connected (visible_setter False n)"
  using assms by (cases n) (auto split: option.splits)

lemma dfs_hidden_connected: "connected n \<Longrightarrow> connected (dfs_hidden n)"
proof (induction n rule: dfs_hidden.induct)
  case (1 nd ed l r)
  have sub: "connected (visible_setter False (dfs_hidden c)) \<and> \<not> visible (visible_setter False (dfs_hidden c))"
    if "connected (dfs_hidden c)" for c
    using hidden_connected [OF that] dfs_hidden_children_hidden [of c] by (simp add: visible_def)
  have l: "connected (dfs_hidden c)" if "l = Some c" "node_data c \<noteq> Hidden" for c
    using "1.IH"(1) [OF that] "1.prems" that by simp
  have r: "connected (dfs_hidden c)" if "r = Some c" "node_data c \<noteq> Hidden" for c
    using "1.IH"(2) [OF that] "1.prems" that by simp
  from "1.prems" l r sub show ?case
    by (auto split: option.splits simp: visible_def)
qed

lemma apply_at_node_data:
  "path \<noteq> [] \<Longrightarrow> node_data (apply_at path f t) = node_data t"
  by (cases path; cases t) simp_all

lemma apply_at_connected_same_flag:
  assumes f: "\<And>n. connected n \<Longrightarrow> connected (f n)" and same: "\<And>n. visible (f n) = visible n"
  shows "connected t \<Longrightarrow> connected (apply_at path f t) \<and> visible (apply_at path f t) = visible t"
proof (induction path arbitrary: t)
  case Nil
  then show ?case using f same by simp
next
  case (Cons go_right path)
  obtain nd ed l r where t: "t = ElementNode nd ed l r" by (cases t)
  have sub: "connected (apply_at path f c) \<and> visible (apply_at path f c) = visible c"
    if "connected c" for c using Cons.IH [OF that] .
  from Cons.prems sub show ?case
    unfolding t by (cases go_right) (auto split: option.splits simp: visible_def)
qed

lemma apply_at_connected_visible_parent:
  assumes f: "\<And>n. connected n \<Longrightarrow> connected (f n)"
  shows "connected t \<Longrightarrow> visible_parent_at path t \<Longrightarrow> connected (apply_at path f t)"
proof (induction path arbitrary: t)
  case Nil
  then show ?case using f by simp
next
  case (Cons go_right path)
  obtain nd ed l r where t: "t = ElementNode nd ed l r" by (cases t)
  have step: "connected (apply_at path f c) \<and> (visible (apply_at path f c) \<longrightarrow> nd = Visible)"
    if c: "connected c" "visible c \<longrightarrow> nd = Visible"
      and pv: "path \<noteq> [] \<Longrightarrow> visible_parent_at path c" for c
  proof (cases "path = []")
    case True
    with Cons.prems(2) t have "nd = Visible" by simp
    moreover have "connected (apply_at path f c)" using Cons.IH [OF c(1)] True by simp
    ultimately show ?thesis by simp
  next
    case False
    from Cons.IH [OF c(1) pv [OF False]] have "connected (apply_at path f c)" .
    moreover have "visible (apply_at path f c) = visible c"
      using apply_at_node_data [OF False] by (simp add: visible_def)
    ultimately show ?thesis using c(2) by simp
  qed
  show ?case
  proof (cases go_right)
    case True
    have "connected (apply_at path f c) \<and> (visible (apply_at path f c) \<longrightarrow> nd = Visible)"
      if r: "r = Some c" for c
    proof (rule step)
      show "connected c" "visible c \<longrightarrow> nd = Visible" using Cons.prems(1) r t by simp_all
      show "visible_parent_at path c" if "path \<noteq> []"
        using Cons.prems(2) r True that t by simp
    qed
    with True Cons.prems(1) show ?thesis unfolding t by (auto split: option.splits)
  next
    case False
    have "connected (apply_at path f c) \<and> (visible (apply_at path f c) \<longrightarrow> nd = Visible)"
      if l: "l = Some c" for c
    proof (rule step)
      show "connected c" "visible c \<longrightarrow> nd = Visible" using Cons.prems(1) l t by simp_all
      show "visible_parent_at path c" if "path \<noteq> []"
        using Cons.prems(2) l False that t by simp
    qed
    with False Cons.prems(1) show ?thesis unfolding t by (auto split: option.splits)
  qed
qed

lemma flag_of_char [simp]: "flag (if v = Visible then CHR ''1'' else CHR ''0'') = v"
  by (cases v) (simp_all add: flag_def)

lemma element_tree_node_data [simp]:
  "node_data (element_tree depth edge t) = (if depth < DISPLAY_DEPTH then Visible else Hidden)"
  by (cases t) simp

lemma element_tree_connected: "connected (element_tree depth edge t)"
  by (induction depth edge t rule: element_tree.induct)
     (auto split: option.splits simp: visible_def)

lemma shape_visible_setter [simp]: "shape (visible_setter v n) = shape n"
  by (cases n) (simp split: option.splits)

lemma shape_dfs_visible [simp]: "shape (dfs_visible depth n) = shape n"
  by (induction depth n rule: dfs_visible.induct) (auto split: option.splits)

lemma shape_dfs_hidden [simp]: "shape (dfs_hidden n) = shape n"
  by (induction n rule: dfs_hidden.induct) (auto split: option.splits)

lemma shape_apply_at:
  assumes "\<And>n. shape (f n) = shape n"
  shows "shape (apply_at path f t) = shape t"
proof (induction path arbitrary: t)
  case Nil
  show ?case using assms by simp
next
  case (Cons go_right path)
  show ?case using Cons by (cases t) (auto split: option.splits)
qed

lemma shape_set_from [simp]: "shape (set_from s t) = shape t"
proof (induction t arbitrary: s)
  case (ElementNode nd ed l r)
  have "shape (set_from s' c) = shape c" if "l = Some c \<or> r = Some c" for c s'
    using ElementNode [of c s'] that by auto
  then show ?case
    by (cases ed; cases l; cases r) (simp_all add: Let_def split: list.splits)
qed

lemma shape_cases:
  assumes "shape (ElementNode nd ed l r) = shape (ElementNode nd' ed' l' r')"
  shows "(ed = None) = (ed' = None)"
    and "(l = None \<and> l' = None) \<or> (\<exists>c c'. l = Some c \<and> l' = Some c' \<and> shape c = shape c')"
    and "(r = None \<and> r' = None) \<or> (\<exists>c c'. r = Some c \<and> r' = Some c' \<and> shape c = shape c')"
  using assms by (auto split: option.splits)

lemma shape_elements_length:
  "shape a = shape b \<Longrightarrow> length (elements a) = length (elements b)"
proof (induction a arbitrary: b)
  case (ElementNode nd ed l r)
  obtain nd' ed' l' r' where b: "b = ElementNode nd' ed' l' r'" by (cases b)
  note sc = shape_cases [OF ElementNode.prems [unfolded b]]
  have E: "length (case ed of None \<Rightarrow> [] | Some e \<Rightarrow> [e]) =
           length (case ed' of None \<Rightarrow> [] | Some e \<Rightarrow> [e])"
    using sc(1) by (cases ed; cases ed') simp_all
  have L: "length (case l of None \<Rightarrow> [] | Some c \<Rightarrow> elements c) =
           length (case l' of None \<Rightarrow> [] | Some c \<Rightarrow> elements c)"
    using sc(2) ElementNode.IH(1) by fastforce
  have R: "length (case r of None \<Rightarrow> [] | Some c \<Rightarrow> elements c) =
           length (case r' of None \<Rightarrow> [] | Some c \<Rightarrow> elements c)"
    using sc(3) ElementNode.IH(2) by fastforce
  from E L R show ?case unfolding b by simp
qed

lemma set_from_saved:
  "shape t = shape saved \<Longrightarrow>
   set_from (map (\<lambda>v. if v = Visible then CHR ''1'' else CHR ''0'') (elements saved) @ rest) t
     = saved"
proof (induction t arbitrary: saved rest)
  case (ElementNode nd ed l r)
  let ?enc = "map (\<lambda>v. if v = Visible then CHR ''1'' else CHR ''0'')"
  obtain nd' ed' l' r' where s: "saved = ElementNode nd' ed' l' r'" by (cases saved)
  note sc = shape_cases [OF ElementNode.prems [unfolded s]]
  have IHl: "set_from (?enc (elements c') @ more) c = c'"
    if "l = Some c" "shape c = shape c'" for c c' more
    using ElementNode.IH(1) [of c c' more] that by simp
  have IHr: "set_from (?enc (elements c') @ more) c = c'"
    if "r = Some c" "shape c = shape c'" for c c' more
    using ElementNode.IH(2) [of c c' more] that by simp
  have len: "drop (length (elements c)) (?enc (elements c') @ more) = more"
    if "shape c = shape c'" for c c' more
    using shape_elements_length [OF that] by simp
  from sc(1) have ed: "(ed = None \<and> ed' = None) \<or> (\<exists>e e'. ed = Some e \<and> ed' = Some e')"
    by (cases ed; cases ed') simp_all
  from ed sc(2) sc(3) show ?case
    unfolding s
    apply (elim disjE conjE exE)
           apply (simp_all only:)
           apply (simp_all add: Let_def IHl IHr len del: drop_append)
    done
qed

lemma reachable_shape_connected:
  "reachable root s \<Longrightarrow> connected s \<and> shape s = shape (Elements_init root)"
proof (induction rule: reachable.induct)
  case constructed
  show ?case by (simp add: Elements_init_def element_tree_connected)
next
  case (hidden s path)
  have "connected (apply_at path set_child_hidden s)"
    using apply_at_connected_same_flag [of set_child_hidden s path] hidden.IH
    by (simp add: set_child_hidden_def dfs_hidden_connected visible_def)
  moreover have "shape (apply_at path set_child_hidden s) = shape s"
    by (rule shape_apply_at) (simp add: set_child_hidden_def)
  ultimately show ?case using hidden.IH by simp
next
  case (shown s path)
  have "connected (apply_at path set_child_visible s)"
    using apply_at_connected_visible_parent [of set_child_visible s path] shown.IH shown.hyps(2)
    by (simp add: set_child_visible_def dfs_visible_connected)
  moreover have "shape (apply_at path set_child_visible s) = shape s"
    by (rule shape_apply_at) (simp add: set_child_visible_def)
  ultimately show ?case using shown.IH by simp
next
  case (was_reset s)
  then show ?case
    by (simp add: reset_def set_child_visible_def set_child_hidden_def
        dfs_visible_connected dfs_hidden_connected)
next
  case (restored s saved)
  then have "shape s = shape saved" by simp
  from set_from_saved [OF this, of "[]"]
  have "set_visiblity s (get_visiblity saved) = saved"
    by (simp add: set_visiblity_def get_visiblity_def)
  with restored.IH show ?case by simp
qed

lemma init_chain_value:
  "Elements_init deep_chain =
     ElementNode Visible None
       (Some (ElementNode Visible (Some Visible)
         (Some (ElementNode Visible (Some Visible)
           (Some (ElementNode Hidden (Some Hidden)
             (Some (ElementNode Hidden (Some Hidden) None None)) None)) None)) None)) None"
  by (simp add: Elements_init_def deep_chain_def DISPLAY_DEPTH_def eval_nat_numeral)

text \<open>
  C9, as amended. In every state of the eager view that is reached from the state
  \<open>Elements.__init__\<close> builds by \<open>set_child_hidden\<close> on any node,
  \<open>set_child_visible\<close> on the root or on a node whose parent is visible,
  \<open>reset\<close>, and \<open>set_visiblity\<close> with a string that \<open>get_visiblity\<close>
  gave in such a state of the same tree, the parent of every visible node is visible; and
  \<open>set_visiblity\<close> in any such state with the string saved in another one gives
  exactly the saved state. \<open>set_visiblity\<close> with an arbitrary string and
  \<open>set_child_visible\<close> on a node whose parent is hidden are not covered.
\<close>

theorem reachable_states_connected:
  assumes "reachable root s" and "reachable root saved"
  shows "connected s \<and> set_visiblity s (get_visiblity saved) = saved"
proof -
  from assms have "shape s = shape saved"
    using reachable_shape_connected [of root s] reachable_shape_connected [of root saved]
    by simp
  from set_from_saved [OF this, of "[]"]
  have "set_visiblity s (get_visiblity saved) = saved"
    by (simp add: set_visiblity_def get_visiblity_def)
  with reachable_shape_connected [OF assms(1)] show ?thesis by simp
qed


theorem reachable_states_connected_witness:
  "reachable deep_chain collapsed_chain \<and> reachable deep_chain expanded_chain
   \<and> get_visiblity (Elements_init deep_chain) = ''111110000''
   \<and> get_visiblity collapsed_chain = ''111000000''
   \<and> get_visiblity expanded_chain = ''111111111''
   \<and> connected collapsed_chain
   \<and> set_visiblity collapsed_chain ''111111111'' = expanded_chain"
proof -
  have r0: "reachable deep_chain (Elements_init deep_chain)" by (rule reachable.constructed)
  have r1: "reachable deep_chain collapsed_chain"
    unfolding collapsed_chain_def by (rule reachable.hidden [OF r0])
  have p: "visible_parent_at [False, False, False] (Elements_init deep_chain)"
    by (simp add: init_chain_value)
  have r2: "reachable deep_chain expanded_chain"
    unfolding expanded_chain_def by (rule reachable.shown [OF r0 p])
  have g0: "get_visiblity (Elements_init deep_chain) = ''111110000''"
    by (simp add: init_chain_value get_visiblity_def)
  have g1: "get_visiblity collapsed_chain = ''111000000''"
    by (simp add: collapsed_chain_def init_chain_value get_visiblity_def set_child_hidden_def)
  have g2: "get_visiblity expanded_chain = ''111111111''"
    by (simp add: expanded_chain_def init_chain_value get_visiblity_def set_child_visible_def
        DISPLAY_DEPTH_def)
  from reachable_states_connected [OF r1 r2] r1 r2 g0 g1 g2 show ?thesis by simp
qed

text \<open>
  The claim as stated, for every operation and every supplied string, fails on the chain as
  \<open>__init__\<close> builds it. \<open>set_visiblity\<close> copies the characters without a
  check: the string \<open>001\<close> hides the root and its edge and leaves the node below
  visible. \<open>set_child_visible\<close> does not look at the parent: called on the node at
  depth 4, whose parent is hidden, it makes that node visible.
\<close>

theorem unchecked_visibility_counterexample:
  "get_visiblity (Elements_init deep_chain) = ''111110000''
   \<and> \<not> connected (set_visiblity (Elements_init deep_chain) ''001'')
   \<and> \<not> visible_parent_at [False, False, False, False] (Elements_init deep_chain)
   \<and> get_visiblity (apply_at [False, False, False, False] set_child_visible
          (Elements_init deep_chain)) = ''111110011''
   \<and> \<not> connected (apply_at [False, False, False, False] set_child_visible
          (Elements_init deep_chain))"
  by (simp add: init_chain_value get_visiblity_def set_visiblity_def flag_def visible_def
      set_child_visible_def DISPLAY_DEPTH_def)

end
